theory Spec2Isabelle
  imports Complex_Main "HOL-Library.Multiset"
begin

section \<open>The 8-puzzle solver of \<^verbatim>\<open>eight_puzzle.py\<close>\<close>

text \<open>
  The development follows \<^verbatim>\<open>src/eight_puzzle.py\<close>: the classes \<^verbatim>\<open>Node\<close>,
  \<^verbatim>\<open>Problem\<close> and \<^verbatim>\<open>Heuristic\<close> and the function \<^verbatim>\<open>graph_search\<close>.
  A puzzle state is a Python list of rows, each a list of integers. Exceptions of the
  source are values of the type \<open>error\<close>; a function that can raise returns
  \<open>error + 'a\<close> with \<open>Inl\<close> for the exception.
\<close>

subsection \<open>Python lists\<close>

datatype error = IndexError | TypeError | OverflowError | ValueError

type_synonym state = "int list list"

text \<open>
  \<^verbatim>\<open>xs[i]\<close>: an index from \<open>-len\<close> up to \<open>len - 1\<close> is accepted, a negative one
  counts from the end, every other index raises \<^verbatim>\<open>IndexError\<close>.
\<close>

definition py_getitem :: "'a list \<Rightarrow> int \<Rightarrow> error + 'a" where
  "py_getitem xs i =
     (let n = int (length xs); k = (if i < 0 then i + n else i)
      in if 0 \<le> k \<and> k < n then Inr (xs ! nat k) else Inl IndexError)"

text \<open>\<^verbatim>\<open>xs[i] = v\<close>, with the same index rule.\<close>

definition py_setitem :: "'a list \<Rightarrow> int \<Rightarrow> 'a \<Rightarrow> error + 'a list" where
  "py_setitem xs i v =
     (let n = int (length xs); k = (if i < 0 then i + n else i)
      in if 0 \<le> k \<and> k < n then Inr (xs[nat k := v]) else Inl IndexError)"

text \<open>\<^verbatim>\<open>state[i][j]\<close>: the row is read first, then the column.\<close>

definition cell :: "state \<Rightarrow> int \<Rightarrow> int \<Rightarrow> error + int" where
  "cell s i j = (case py_getitem s i of Inl e \<Rightarrow> Inl e | Inr row \<Rightarrow> py_getitem row j)"

text \<open>
  \<^verbatim>\<open>new_state[i][j] = v\<close> on the deep copy made by \<^verbatim>\<open>result\<close>. The rows of a
  deep copy of a grid whose rows are distinct objects are distinct objects, so the store
  into one row leaves the other rows as they are and the update is the functional one.
\<close>

definition set_cell :: "state \<Rightarrow> int \<Rightarrow> int \<Rightarrow> int \<Rightarrow> error + state" where
  "set_cell s i j v =
     (case py_getitem s i of
        Inl e \<Rightarrow> Inl e
      | Inr row \<Rightarrow>
          (case py_setitem row j v of
             Inl e \<Rightarrow> Inl e
           | Inr row' \<Rightarrow> py_setitem s i row'))"

text \<open>
  The index pairs visited by \<^verbatim>\<open>for i in range(3): for j in range(3)\<close>, in the order
  of the visit.
\<close>

definition grid_indices :: "(int \<times> int) list" where
  "grid_indices = concat (map (\<lambda>i. map (\<lambda>j. (i, j)) [0, 1, 2]) [0, 1, 2])"

subsection \<open>Python numbers\<close>

text \<open>
  The heuristics return Python numbers: an \<^verbatim>\<open>int\<close>, which is unbounded, or a
  \<^verbatim>\<open>float\<close>, which is an IEEE 754 double. A finite double is given by its value, a
  real number. Every operation on doubles returns the double nearest to the exact result,
  the one with the even significand when two are equally near; \<open>round_double\<close> is that
  rounding, for significands of 53 bits and exponents from -1022 on. No sum or root taken
  by this program comes near the largest double, and an \<^verbatim>\<open>int\<close> too large for a
  double raises \<^verbatim>\<open>OverflowError\<close> when it is converted, so no infinity and no NaN
  arises. A heuristic that the caller hands to \<^verbatim>\<open>graph_search\<close> is a function from
  states to these numbers, or to an exception.
\<close>

definition round_half_even :: "real \<Rightarrow> int" where
  "round_half_even r =
     (let fl = \<lfloor>r\<rfloor>; d = r - of_int fl
      in if d < 1 / 2 then fl
         else if d > 1 / 2 then fl + 1
         else if even fl then fl else fl + 1)"

definition round_double :: "real \<Rightarrow> real" where
  "round_double x =
     (if x = 0 then 0
      else
        (let e = max \<lfloor>log 2 \<bar>x\<bar>\<rfloor> (- 1022); ulp = 2 powi (e - 52)
         in of_int (round_half_even (x / ulp)) * ulp))"

text \<open>
  The conversion of an \<^verbatim>\<open>int\<close> to a \<^verbatim>\<open>float\<close>, as \<^verbatim>\<open>math.sqrt\<close> and the
  addition of an \<^verbatim>\<open>int\<close> and a \<^verbatim>\<open>float\<close> do it: the nearest double, or
  \<^verbatim>\<open>OverflowError\<close> when that is beyond the largest double.
\<close>

definition float_of_int :: "int \<Rightarrow> error + real" where
  "float_of_int n =
     (let x = round_double (of_int n)
      in if \<bar>x\<bar> \<ge> 2 ^ 1024 then Inl OverflowError else Inr x)"

definition float_add :: "real \<Rightarrow> real \<Rightarrow> real" where
  "float_add x y = round_double (x + y)"

text \<open>\<^verbatim>\<open>math.sqrt\<close> of an \<^verbatim>\<open>int\<close>.\<close>

definition math_sqrt :: "int \<Rightarrow> error + real" where
  "math_sqrt n =
     (case float_of_int n of
        Inl e \<Rightarrow> Inl e
      | Inr x \<Rightarrow> if x < 0 then Inl ValueError else Inr (round_double (sqrt x)))"

datatype number = PyInt int | PyFloat real

text \<open>
  \<^verbatim>\<open>a + b\<close>: exact on two \<^verbatim>\<open>int\<close>s; otherwise an \<^verbatim>\<open>int\<close> operand is
  converted and the doubles are added.
\<close>

fun py_add :: "number \<Rightarrow> number \<Rightarrow> error + number" where
  "py_add (PyInt a) (PyInt b) = Inr (PyInt (a + b))"
| "py_add (PyInt a) (PyFloat y) =
     (case float_of_int a of Inl e \<Rightarrow> Inl e | Inr x \<Rightarrow> Inr (PyFloat (float_add x y)))"
| "py_add (PyFloat x) (PyInt b) =
     (case float_of_int b of Inl e \<Rightarrow> Inl e | Inr y \<Rightarrow> Inr (PyFloat (float_add x y)))"
| "py_add (PyFloat x) (PyFloat y) = Inr (PyFloat (float_add x y))"

text \<open>
  \<^verbatim>\<open>a < b\<close> and \<^verbatim>\<open>a == b\<close> compare the values of the two numbers, also
  between an \<^verbatim>\<open>int\<close> and a \<^verbatim>\<open>float\<close>.
\<close>

fun num_val :: "number \<Rightarrow> real" where
  "num_val (PyInt a) = of_int a"
| "num_val (PyFloat x) = x"

subsection \<open>Class \<^verbatim>\<open>Node\<close>\<close>

text \<open>
  A node holds its parent, so the chain of parents back to the root is part of the value.
\<close>

datatype node =
  Node (state: state) (parent: "node option") (operator: "string option")
       (depth: int) (path_cost: int) (heuristic_cost: number)

text \<open>The properties \<^verbatim>\<open>g\<close>, \<^verbatim>\<open>h\<close> and \<^verbatim>\<open>f\<close> of a node.\<close>

definition node_g :: "node \<Rightarrow> int" where
  "node_g n = depth n"

definition node_h :: "node \<Rightarrow> number" where
  "node_h n = heuristic_cost n"

definition node_f :: "node \<Rightarrow> error + number" where
  "node_f n = py_add (PyInt (node_g n)) (node_h n)"

subsection \<open>Class \<^verbatim>\<open>Problem\<close>\<close>

record problem =
  initial_state :: state
  goal_state :: state

definition Problem :: "state \<Rightarrow> problem" where
  "Problem s = \<lparr>initial_state = s, goal_state = [[1, 2, 3], [4, 5, 6], [7, 8, 0]]\<rparr>"

text \<open>
  \<^verbatim>\<open>_find_blank\<close>: the first cell in row-major order that holds 0, or the pair
  \<^verbatim>\<open>(None, None)\<close>, here \<open>None\<close>, when no cell of the visit holds 0.
\<close>

fun find_blank_from :: "state \<Rightarrow> (int \<times> int) list \<Rightarrow> error + (int \<times> int) option" where
  "find_blank_from s [] = Inr None"
| "find_blank_from s ((i, j) # ps) =
     (case cell s i j of
        Inl e \<Rightarrow> Inl e
      | Inr v \<Rightarrow> if v = 0 then Inr (Some (i, j)) else find_blank_from s ps)"

definition find_blank :: "state \<Rightarrow> error + (int \<times> int) option" where
  "find_blank s = find_blank_from s grid_indices"

text \<open>
  \<^verbatim>\<open>operators\<close>: with no blank found the comparison \<^verbatim>\<open>None > 0\<close> raises
  \<^verbatim>\<open>TypeError\<close>.
\<close>

definition operators :: "state \<Rightarrow> error + string list" where
  "operators s =
     (case find_blank s of
        Inl e \<Rightarrow> Inl e
      | Inr None \<Rightarrow> Inl TypeError
      | Inr (Some (blank_row, blank_col)) \<Rightarrow>
          Inr ((if blank_row > 0 then [''up''] else []) @
               (if blank_row < 2 then [''down''] else []) @
               (if blank_col > 0 then [''left''] else []) @
               (if blank_col < 2 then [''right''] else [])))"

text \<open>
  \<^verbatim>\<open>result\<close>: the blank is looked up before the operator is inspected; an unknown
  operator returns the copy unchanged; the tile at the new position is read
  (\<^verbatim>\<open>new_state[new_row][new_col]\<close>) before the two stores.
\<close>

definition result :: "state \<Rightarrow> string \<Rightarrow> error + state" where
  "result s opr =
     (case find_blank s of
        Inl e \<Rightarrow> Inl e
      | Inr blank \<Rightarrow>
          if opr \<noteq> ''up'' \<and> opr \<noteq> ''down'' \<and> opr \<noteq> ''left'' \<and> opr \<noteq> ''right'' then Inr s
          else
            (case blank of
               None \<Rightarrow> Inl TypeError
             | Some (blank_row, blank_col) \<Rightarrow>
                 (let (new_row, new_col) =
                        (if opr = ''up'' then (blank_row - 1, blank_col)
                         else if opr = ''down'' then (blank_row + 1, blank_col)
                         else if opr = ''left'' then (blank_row, blank_col - 1)
                         else (blank_row, blank_col + 1))
                  in case cell s new_row new_col of
                       Inl e \<Rightarrow> Inl e
                     | Inr tile \<Rightarrow>
                         (case set_cell s blank_row blank_col tile of
                            Inl e \<Rightarrow> Inl e
                          | Inr s1 \<Rightarrow> set_cell s1 new_row new_col 0))))"

definition goal_test :: "problem \<Rightarrow> state \<Rightarrow> bool" where
  "goal_test p s = (s = goal_state p)"

text \<open>
  \<^verbatim>\<open>is_solvable\<close>: the tiles other than 0 in row-major order, then the two nested
  index loops that count the inversions.
\<close>

definition tiles_of :: "state \<Rightarrow> int list" where
  "tiles_of s = filter (\<lambda>tile. tile \<noteq> 0) (concat s)"

definition count_inversions :: "int list \<Rightarrow> int" where
  "count_inversions tiles =
     fold (\<lambda>i inversions.
             fold (\<lambda>j inversions. if tiles ! i > tiles ! j then inversions + 1 else inversions)
                  [i + 1 ..< length tiles] inversions)
          [0 ..< length tiles] 0"

definition is_solvable :: "state \<Rightarrow> bool" where
  "is_solvable s = (count_inversions (tiles_of s) mod 2 = 0)"

subsection \<open>Class \<^verbatim>\<open>Heuristic\<close>\<close>

text \<open>
  The three loops over the grid share their shape: read \<^verbatim>\<open>state[i][j]\<close>, update an
  accumulator. \<open>for_cells\<close> is that loop; reading a cell outside the grid raises.
\<close>

fun for_cells :: "(int \<Rightarrow> int \<Rightarrow> int \<Rightarrow> 'a \<Rightarrow> 'a) \<Rightarrow> state \<Rightarrow> (int \<times> int) list \<Rightarrow> 'a \<Rightarrow> error + 'a" where
  "for_cells body s [] acc = Inr acc"
| "for_cells body s ((i, j) # ps) acc =
     (case cell s i j of
        Inl e \<Rightarrow> Inl e
      | Inr v \<Rightarrow> for_cells body s ps (body i j v acc))"

definition uniform_cost :: "state \<Rightarrow> error + number" where
  "uniform_cost s = Inr (PyInt 0)"

definition misplaced_tile :: "state \<Rightarrow> error + number" where
  "misplaced_tile s =
     (let goal = [[1, 2, 3], [4, 5, 6], [7, 8, 0]]
      in map_sum id PyInt
           (for_cells (\<lambda>i j v count.
                         if v \<noteq> 0 \<and> v \<noteq> goal ! nat i ! nat j then count + 1 else count)
              s grid_indices 0))"

definition manhattan_distance :: "state \<Rightarrow> error + number" where
  "manhattan_distance s =
     map_sum id PyInt
       (for_cells (\<lambda>i j val distance.
                     if val \<noteq> 0 then
                       (let goal_i = (val - 1) div 3; goal_j = (val - 1) mod 3
                        in distance + (\<bar>i - goal_i\<bar> + \<bar>j - goal_j\<bar>))
                     else distance)
          s grid_indices 0)"

text \<open>
  \<^verbatim>\<open>euclidean_distance\<close>: the accumulator starts as the double \<^verbatim>\<open>0.0\<close>; every
  root and every addition is an operation on doubles, in the order of the loop.
\<close>

fun euclidean_loop :: "state \<Rightarrow> (int \<times> int) list \<Rightarrow> real \<Rightarrow> error + real" where
  "euclidean_loop s [] distance = Inr distance"
| "euclidean_loop s ((i, j) # ps) distance =
     (case cell s i j of
        Inl e \<Rightarrow> Inl e
      | Inr val \<Rightarrow>
          if val \<noteq> 0 then
            (let goal_i = (val - 1) div 3; goal_j = (val - 1) mod 3
             in case math_sqrt ((i - goal_i)\<^sup>2 + (j - goal_j)\<^sup>2) of
                  Inl e \<Rightarrow> Inl e
                | Inr rt \<Rightarrow> euclidean_loop s ps (float_add distance rt))
          else euclidean_loop s ps distance)"

definition euclidean_distance :: "state \<Rightarrow> error + number" where
  "euclidean_distance s = map_sum id PyFloat (euclidean_loop s grid_indices 0)"

subsection \<open>\<^verbatim>\<open>graph_search\<close>\<close>

text \<open>
  The frontier is the list handed to \<^verbatim>\<open>heapq\<close>; its entries are the tuples
  \<^verbatim>\<open>(f, counter, node)\<close>. \<^verbatim>\<open>heappush\<close> adds an entry and \<^verbatim>\<open>heappop\<close> removes
  and returns the least one. Tuples are compared from the left, so the least entry is the
  one with the least \<^verbatim>\<open>f\<close> and, among those, the least counter. The counters of the
  entries of a frontier differ, so the nodes are never compared, and the position of an
  entry inside the heap array has no effect on what is popped or on
  \<^verbatim>\<open>len(frontier)\<close>; the list is kept in the order of the pushes.
\<close>

type_synonym entry = "number \<times> int \<times> node"

definition entry_less :: "entry \<Rightarrow> entry \<Rightarrow> bool" where
  "entry_less x y =
     (num_val (fst x) < num_val (fst y) \<or>
      (num_val (fst x) = num_val (fst y) \<and> fst (snd x) < fst (snd y)))"

definition heappush :: "entry list \<Rightarrow> entry \<Rightarrow> entry list" where
  "heappush heap item = heap @ [item]"

fun least_entry :: "entry \<Rightarrow> entry list \<Rightarrow> entry" where
  "least_entry m [] = m"
| "least_entry m (x # xs) = least_entry (if entry_less x m then x else m) xs"

fun heappop :: "entry list \<Rightarrow> error + (entry \<times> entry list)" where
  "heappop [] = Inl IndexError"
| "heappop (x # xs) = (let m = least_entry x xs in Inr (m, remove1 m (x # xs)))"

text \<open>The variables of the loop of \<^verbatim>\<open>graph_search\<close>.\<close>

record search_state =
  frontier :: "entry list"
  explored :: "state set"
  counter :: int
  nodes_expanded :: int
  max_queue_size :: int

type_synonym outcome = "node option \<times> int \<times> int"

text \<open>
  The \<^verbatim>\<open>for operator in problem.operators(node.state)\<close> loop: a child whose state is
  not in the explored set is pushed with the current counter; its \<^verbatim>\<open>f\<close> is computed
  when the tuple to push is built.
\<close>

fun expand ::
  "(state \<Rightarrow> error + number) \<Rightarrow> node \<Rightarrow> state set \<Rightarrow> string list \<Rightarrow>
     entry list \<times> int \<Rightarrow> error + (entry list \<times> int)" where
  "expand heuristic_func nd expl [] (fr, cnt) = Inr (fr, cnt)"
| "expand heuristic_func nd expl (opr # oprs) (fr, cnt) =
     (case result (state nd) opr of
        Inl e \<Rightarrow> Inl e
      | Inr child_state \<Rightarrow>
          if child_state \<notin> expl then
            (case heuristic_func child_state of
               Inl e \<Rightarrow> Inl e
             | Inr h_cost \<Rightarrow>
                 (let child_node =
                        Node child_state (Some nd) (Some opr) (depth nd + 1) (path_cost nd + 1) h_cost
                  in case node_f child_node of
                       Inl e \<Rightarrow> Inl e
                     | Inr fv \<Rightarrow>
                         expand heuristic_func nd expl oprs
                           (heappush fr (fv, cnt, child_node), cnt + 1)))
          else expand heuristic_func nd expl oprs (fr, cnt))"

text \<open>
  One pass through the body of the \<^verbatim>\<open>while frontier\<close> loop: either the function
  returns (\<open>Done\<close>, with the returned tuple or the exception) or the loop goes on with
  new values of its variables (\<open>Next\<close>).
\<close>

datatype ('r, 's) loop_step = Done 'r | Next 's

definition loop_body ::
  "problem \<Rightarrow> (state \<Rightarrow> error + number) \<Rightarrow> search_state \<Rightarrow>
     (error + outcome, search_state) loop_step" where
  "loop_body p heuristic_func st =
     (case heappop (frontier st) of
        Inl e \<Rightarrow> Done (Inl e)
      | Inr ((_, _, nd), fr) \<Rightarrow>
          if goal_test p (state nd) then
            Done (Inr (Some nd, nodes_expanded st, max_queue_size st))
          else if state nd \<in> explored st then Next (st\<lparr>frontier := fr\<rparr>)
          else
            (let expl = insert (state nd) (explored st)
             in case operators (state nd) of
                  Inl e \<Rightarrow> Done (Inl e)
                | Inr oprs \<Rightarrow>
                    (case expand heuristic_func nd expl oprs (fr, counter st) of
                       Inl e \<Rightarrow> Done (Inl e)
                     | Inr (fr', cnt') \<Rightarrow>
                         Next \<lparr>frontier = fr', explored = expl, counter = cnt',
                               nodes_expanded = nodes_expanded st + 1,
                               max_queue_size = max (max_queue_size st) (int (length fr'))\<rparr>)))"

text \<open>
  The loop itself. Nothing in its text bounds the number of passes, so it is a partial
  function: \<open>None\<close> stands for a loop that never leaves.
\<close>

partial_function (option) search_loop ::
  "problem \<Rightarrow> (state \<Rightarrow> error + number) \<Rightarrow> search_state \<Rightarrow> (error + outcome) option" where
  "search_loop p heuristic_func st =
     (if frontier st = [] then Some (Inr (None, nodes_expanded st, max_queue_size st))
      else
        (case loop_body p heuristic_func st of
           Done r \<Rightarrow> Some r
         | Next st' \<Rightarrow> search_loop p heuristic_func st'))"

text \<open>
  \<^verbatim>\<open>graph_search(problem, heuristic_func=None)\<close>: without a heuristic the search is
  uniform-cost search.
\<close>

definition graph_search ::
  "problem \<Rightarrow> (state \<Rightarrow> error + number) option \<Rightarrow> (error + outcome) option" where
  "graph_search p heuristic_opt =
     (let heuristic_func = (case heuristic_opt of None \<Rightarrow> uniform_cost | Some hf \<Rightarrow> hf)
      in case heuristic_func (initial_state p) of
           Inl e \<Rightarrow> Some (Inl e)
         | Inr h_initial \<Rightarrow>
             (let initial_node = Node (initial_state p) None None 0 0 h_initial
              in case node_f initial_node of
                   Inl e \<Rightarrow> Some (Inl e)
                 | Inr fv \<Rightarrow>
                     search_loop p heuristic_func
                       \<lparr>frontier = [(fv, 0, initial_node)], explored = {},
                        counter = 1, nodes_expanded = 0, max_queue_size = 1\<rparr>))"

text \<open>\<^verbatim>\<open>uniform_cost_search\<close>.\<close>

definition uniform_cost_search :: "problem \<Rightarrow> (error + outcome) option" where
  "uniform_cost_search p = graph_search p (Some uniform_cost)"

text \<open>
  The path collected by \<^verbatim>\<open>print_solution\<close>: the pairs \<^verbatim>\<open>(operator, state)\<close> from the
  node back to, and without, the root, reversed.
\<close>

fun path_to_root :: "node \<Rightarrow> (string option \<times> state) list" where
  "path_to_root (Node s None opr d c hc) = []"
| "path_to_root (Node s (Some par) opr d c hc) = (opr, s) # path_to_root par"

definition solution_path :: "node \<Rightarrow> (string option \<times> state) list" where
  "solution_path goal_node = rev (path_to_root goal_node)"

subsection \<open>Grids and notions used by the properties\<close>

text \<open>The goal grid and the grids the properties name.\<close>

definition goal_grid :: state where
  "goal_grid = [[1, 2, 3], [4, 5, 6], [7, 8, 0]]"

definition easy_state :: state where
  "easy_state = [[1, 2, 3], [4, 5, 6], [7, 0, 8]]"

definition corner_state :: state where
  "corner_state = [[1, 2, 0], [4, 5, 3], [7, 8, 6]]"

definition swapped_state :: state where
  "swapped_state = [[1, 2, 3], [4, 5, 6], [8, 7, 0]]"

text \<open>
  A valid puzzle state: three rows of three cells that hold each of the values 0 to 8
  exactly once.
\<close>

definition valid_state :: "state \<Rightarrow> bool" where
  "valid_state s =
     (map length s = [3, 3, 3] \<and> mset (concat s) = mset [0, 1, 2, 3, 4, 5, 6, 7, 8])"

text \<open>
  The ground truth for the length of a shortest solution: \<open>reached_in n s\<close> lists the
  states that some sequence of exactly \<open>n\<close> legal moves leads to from \<open>s\<close>, so the
  optimal length is the least \<open>n\<close> whose list holds the goal.
\<close>

definition successors :: "state \<Rightarrow> state list" where
  "successors s =
     (case operators s of
        Inl e \<Rightarrow> []
      | Inr oprs \<Rightarrow>
          concat (map (\<lambda>opr. case result s opr of Inl e \<Rightarrow> [] | Inr s' \<Rightarrow> [s']) oprs))"

fun reached_in :: "nat \<Rightarrow> state \<Rightarrow> state list" where
  "reached_in 0 s = [s]"
| "reached_in (Suc n) s = concat (map successors (reached_in n s))"

text \<open>
  The inversion count in the words of the specification: the number of pairs \<open>i < j\<close>
  of positions with \<open>value[i] > value[j]\<close>.
\<close>

definition inversions_spec :: "int list \<Rightarrow> nat" where
  "inversions_spec vs = card {(i, j). i < j \<and> j < length vs \<and> vs ! i > vs ! j}"

text \<open>The same count by recursion on the list, for the proofs.\<close>

fun inversions :: "int list \<Rightarrow> nat" where
  "inversions [] = 0"
| "inversions (x # xs) = length (filter (\<lambda>y. x > y) xs) + inversions xs"

text \<open>
  The inverse of a move, as the property on moves names it: \<open>up\<close> and \<open>down\<close>
  undo each other, and so do \<open>left\<close> and \<open>right\<close>.
\<close>

definition inverse_op :: "string \<Rightarrow> string" where
  "inverse_op opr =
     (if opr = ''up'' then ''down'' else if opr = ''down'' then ''up''
      else if opr = ''left'' then ''right'' else if opr = ''right'' then ''left'' else opr)"

text \<open>
  The states reachable from \<open>s0\<close>: those that a sequence of moves, each one offered
  by \<open>operators\<close> for the state it is applied to, leads to.
\<close>

inductive_set reachable :: "state \<Rightarrow> state set" for s0 :: state where
  start: "s0 \<in> reachable s0"
| move: "s \<in> reachable s0 \<Longrightarrow> operators s = Inr oprs \<Longrightarrow> opr \<in> set oprs \<Longrightarrow>
           result s opr = Inr s' \<Longrightarrow> s' \<in> reachable s0"

text \<open>
  For counting the states of one parity: exchanging the tiles 1 and 2 in a grid.
\<close>

definition swap_tiles :: "int \<Rightarrow> int" where
  "swap_tiles v = (if v = 1 then 2 else if v = 2 then 1 else v)"

definition relabel :: "state \<Rightarrow> state" where
  "relabel s = map (map swap_tiles) s"

text \<open>
  A grid with one blank: three rows of three cells of which exactly one holds 0. Every
  valid state is such a grid. The moves of the blank and the loop of the search behave on
  these grids as on valid states, and some of them, like \<open>ones_state\<close>, have so few
  reachable states that a search that never meets the goal can be run to its end.
\<close>

definition one_blank :: "state \<Rightarrow> bool" where
  "one_blank s = (map length s = [3, 3, 3] \<and> count_list (concat s) 0 = 1)"

definition ones_state :: state where
  "ones_state = [[0, 1, 1], [1, 1, 1], [1, 1, 1]]"

text \<open>
  The states held by the entries of a frontier, the invariant of the loop of
  \<^verbatim>\<open>graph_search\<close> for the initial state \<open>s0\<close>, and what holds of the value the
  loop returns. The invariant: the states in the frontier and in the explored set are
  reachable, \<^verbatim>\<open>nodes_expanded\<close> is the size of the explored set, the goal is not
  explored, every state that a move leads to from an explored state is explored or queued
  (and so is \<open>s0\<close>), the depths of the queued nodes are between 0 and
  \<^verbatim>\<open>nodes_expanded\<close>, and \<^verbatim>\<open>max_queue_size\<close> is at least 1 and the length of the
  frontier, and at most \<open>1 + 3 * nodes_expanded\<close>.
\<close>

definition entry_states :: "entry list \<Rightarrow> state set" where
  "entry_states fr = (\<lambda>e. state (snd (snd e))) ` set fr"

definition search_inv :: "state \<Rightarrow> search_state \<Rightarrow> bool" where
  "search_inv s0 st =
     (entry_states (frontier st) \<subseteq> reachable s0 \<and>
      explored st \<subseteq> reachable s0 \<and>
      nodes_expanded st = int (card (explored st)) \<and>
      goal_grid \<notin> explored st \<and>
      s0 \<in> explored st \<union> entry_states (frontier st) \<and>
      (\<forall>s\<in>explored st. \<forall>oprs opr s'.
         operators s = Inr oprs \<longrightarrow> opr \<in> set oprs \<longrightarrow> result s opr = Inr s' \<longrightarrow>
           s' \<in> explored st \<union> entry_states (frontier st)) \<and>
      (\<forall>e\<in>set (frontier st).
         0 \<le> depth (snd (snd e)) \<and> depth (snd (snd e)) \<le> nodes_expanded st) \<and>
      int (length (frontier st)) \<le> max_queue_size st \<and>
      1 \<le> max_queue_size st \<and>
      max_queue_size st \<le> 1 + 3 * nodes_expanded st)"

definition search_post :: "state \<Rightarrow> (state \<Rightarrow> error + number) \<Rightarrow> error + outcome \<Rightarrow> bool" where
  "search_post s0 hf r =
     (case r of
        Inl e \<Rightarrow> \<exists>s\<in>reachable s0. hf s = Inl e
      | Inr (gn, ne, mq) \<Rightarrow>
          1 \<le> mq \<and> mq \<le> 1 + 3 * ne \<and>
          (case gn of
             None \<Rightarrow> ne = int (card (reachable s0)) \<and> goal_grid \<notin> reachable s0
           | Some n \<Rightarrow>
               state n = goal_grid \<and> goal_grid \<in> reachable s0 \<and>
               ne < int (card (reachable s0))))"

text \<open>
  The values of the variables of \<^verbatim>\<open>graph_search\<close> when the loop is entered, for
  the heuristic value \<open>h_initial\<close> of the initial state and the \<^verbatim>\<open>f\<close> of the root
  node; and \<open>n\<close> passes through the body of the loop, which end with \<open>Done\<close> if one
  of them returns or raises.
\<close>

definition initial_queue :: "state \<Rightarrow> number \<Rightarrow> number \<Rightarrow> search_state" where
  "initial_queue s h_initial fv =
     \<lparr>frontier = [(fv, 0, Node s None None 0 0 h_initial)], explored = {}, counter = 1,
      nodes_expanded = 0, max_queue_size = 1\<rparr>"

fun passes ::
  "problem \<Rightarrow> (state \<Rightarrow> error + number) \<Rightarrow> nat \<Rightarrow> search_state \<Rightarrow>
     (error + outcome, search_state) loop_step" where
  "passes p hf 0 st = Next st"
| "passes p hf (Suc n) st =
     (case loop_body p hf st of Done r \<Rightarrow> Done r | Next st' \<Rightarrow> passes p hf n st')"

text \<open>
  The counters of a queue are in order when the entries of the frontier have different
  counters, all of them below the counter variable. Two queues are the same up to the
  layout of the heap when their frontiers hold the same entries, in whatever order, and
  the other variables agree.
\<close>

definition counters_ok :: "search_state \<Rightarrow> bool" where
  "counters_ok st =
     (distinct (map (\<lambda>e. fst (snd e)) (frontier st)) \<and>
      (\<forall>e\<in>set (frontier st). fst (snd e) < counter st))"

definition same_queue :: "search_state \<Rightarrow> search_state \<Rightarrow> bool" where
  "same_queue st1 st2 =
     (mset (frontier st1) = mset (frontier st2) \<and> explored st1 = explored st2 \<and>
      counter st1 = counter st2 \<and> nodes_expanded st1 = nodes_expanded st2 \<and>
      max_queue_size st1 = max_queue_size st2)"

text \<open>
  The variables after the first pass of uniform-cost search on \<open>easy_state\<close>: the
  three children of the root are queued with the same \<^verbatim>\<open>f\<close>. And the same queue
  with the frontier in the opposite order.
\<close>

definition tied_queue :: search_state where
  "tied_queue =
     \<lparr>frontier =
        [(PyInt 1, 1, Node [[1, 2, 3], [4, 0, 6], [7, 5, 8]]
                        (Some (Node easy_state None None 0 0 (PyInt 0))) (Some ''up'') 1 1 (PyInt 0)),
         (PyInt 1, 2, Node [[1, 2, 3], [4, 5, 6], [0, 7, 8]]
                        (Some (Node easy_state None None 0 0 (PyInt 0))) (Some ''left'') 1 1 (PyInt 0)),
         (PyInt 1, 3, Node [[1, 2, 3], [4, 5, 6], [7, 8, 0]]
                        (Some (Node easy_state None None 0 0 (PyInt 0))) (Some ''right'') 1 1 (PyInt 0))],
      explored = {easy_state}, counter = 4, nodes_expanded = 1, max_queue_size = 3\<rparr>"

definition tied_queue_permuted :: search_state where
  "tied_queue_permuted = tied_queue\<lparr>frontier := rev (frontier tied_queue)\<rparr>"

section \<open>Properties\<close>

subsection \<open>Doubles\<close>

lemma round_half_even_of_int: "round_half_even (of_int m) = m"
  by (simp add: round_half_even_def)

lemma round_half_even_nonneg: "0 \<le> r \<Longrightarrow> 0 \<le> round_half_even r"
  by (simp add: round_half_even_def Let_def)

lemma round_double_nonneg: "0 \<le> x \<Longrightarrow> 0 \<le> round_double x"
  by (simp add: round_double_def Let_def round_half_even_nonneg)

lemma floor_log2_bounds:
  assumes "1 \<le> a" and "a < 2 ^ 53"
  shows "0 \<le> \<lfloor>log 2 a\<rfloor>" and "\<lfloor>log 2 a\<rfloor> \<le> 52"
proof -
  from assms(1) have "0 \<le> log 2 a" by simp
  then show "0 \<le> \<lfloor>log 2 a\<rfloor>" by simp
  from assms have "log 2 a < 53" by (simp add: log_less_iff)
  then have "\<lfloor>log 2 a\<rfloor> < 53" by (simp add: floor_less_iff)
  then show "\<lfloor>log 2 a\<rfloor> \<le> 52" by simp
qed

lemma round_double_of_int:
  assumes "\<bar>n\<bar> < 2 ^ 53"
  shows "round_double (of_int n) = of_int n"
proof (cases "n = 0")
  case True
  then show ?thesis by (simp add: round_double_def)
next
  case False
  let ?a = "\<bar>of_int n :: real\<bar>"
  let ?e = "\<lfloor>log 2 ?a\<rfloor>"
  from False have "1 \<le> \<bar>n\<bar>" by simp
  then have a1: "1 \<le> ?a" by (metis of_int_1_le_iff of_int_abs)
  from assms have "of_int \<bar>n\<bar> < (2 ^ 53 :: real)" by (metis of_int_less_numeral_power_cancel_iff)
  then have a2: "?a < 2 ^ 53" by simp
  note e = floor_log2_bounds [OF a1 a2]
  then have m: "max ?e (- 1022) = ?e" by simp
  define k where "k = nat (52 - ?e)"
  have p: "(2::real) powi (?e - 52) = 1 / 2 ^ k"
    using e by (simp add: k_def power_int_def power_one_over)
  have "(of_int n :: real) / (2 powi (?e - 52)) = of_int (n * 2 ^ k)"
    unfolding p by simp
  then have "round_half_even (of_int n / (2 powi (?e - 52))) = n * 2 ^ k"
    by (simp only: round_half_even_of_int)
  then show ?thesis
    using False by (simp add: round_double_def Let_def m p)
qed

lemma float_of_int_small:
  assumes "\<bar>n\<bar> < 2 ^ 53"
  shows "float_of_int n = Inr (of_int n)"
proof -
  from assms have "of_int \<bar>n\<bar> < (2 ^ 53 :: real)" by (metis of_int_less_numeral_power_cancel_iff)
  also have "\<dots> < 2 ^ 1024" by simp
  finally have "\<not> \<bar>of_int n :: real\<bar> \<ge> 2 ^ 1024" by simp
  then show ?thesis by (simp add: float_of_int_def round_double_of_int [OF assms] Let_def)
qed

lemma math_sqrt_nonneg: "math_sqrt n = Inr r \<Longrightarrow> 0 \<le> r"
  by (auto simp add: math_sqrt_def round_double_nonneg split: sum.splits if_splits)

lemma math_sqrt_small:
  assumes "0 \<le> n" and "n < 2 ^ 53"
  shows "math_sqrt n = Inr (round_double (sqrt (of_int n)))"
proof -
  from assms have "\<bar>n\<bar> < 2 ^ 53" by simp
  from float_of_int_small [OF this] assms(1) show ?thesis by (simp add: math_sqrt_def)
qed

lemma round_double_numeral:
  "round_double 0 = 0" "round_double 1 = 1"
  "\<bar>numeral w :: int\<bar> < 2 ^ 53 \<Longrightarrow> round_double (numeral w) = numeral w"
  using round_double_of_int [of 0] round_double_of_int [of 1] round_double_of_int [of "numeral w"]
  by simp_all

lemma float_ops_small:
  "float_of_int 0 = Inr 0" "float_of_int 1 = Inr 1"
  "\<bar>numeral w :: int\<bar> < 2 ^ 53 \<Longrightarrow> float_of_int (numeral w) = Inr (numeral w)"
  "math_sqrt 0 = Inr 0" "math_sqrt 1 = Inr 1"
  using float_of_int_small [of 0] float_of_int_small [of 1] float_of_int_small [of "numeral w"]
    math_sqrt_small [of 0] math_sqrt_small [of 1]
  by (simp_all add: round_double_numeral)

subsection \<open>Running the search on given grids\<close>

lemmas eval_defs =
  loop_body_def goal_test_def operators_def find_blank_def grid_indices_def cell_def
  py_getitem_def py_setitem_def result_def set_cell_def heappush_def node_f_def node_g_def
  node_h_def entry_less_def Problem_def float_add_def round_double_numeral float_ops_small

lemma search_loop_done:
  "frontier st \<noteq> [] \<Longrightarrow> loop_body p hf st = Done r \<Longrightarrow> search_loop p hf st = Some r"
  by (subst search_loop.simps) simp

lemma search_loop_next:
  "frontier st \<noteq> [] \<Longrightarrow> loop_body p hf st = Next st' \<Longrightarrow>
     search_loop p hf st = search_loop p hf st'"
  by (subst search_loop.simps) simp

lemma search_loop_empty:
  "frontier st = [] \<Longrightarrow>
     search_loop p hf st = Some (Inr (None, nodes_expanded st, max_queue_size st))"
  by (subst search_loop.simps) simp

lemma node_f_root: "\<exists>fv. node_f (Node s None None 0 0 v) = Inr fv"
  by (cases v) (simp_all add: node_f_def node_g_def node_h_def float_ops_small)

lemma easy_manhattan:
  "graph_search (Problem easy_state) (Some manhattan_distance) =
     Some (Inr (Some (Node goal_grid (Some (Node easy_state None None 0 0 (PyInt 1)))
                        (Some ''right'') 1 1 (PyInt 0)), 1, 3))"
  by (simp add: graph_search_def goal_grid_def easy_state_def manhattan_distance_def
        search_loop.simps eval_defs)

lemma easy_misplaced:
  "graph_search (Problem easy_state) (Some misplaced_tile) =
     Some (Inr (Some (Node goal_grid (Some (Node easy_state None None 0 0 (PyInt 1)))
                        (Some ''right'') 1 1 (PyInt 0)), 1, 3))"
  by (simp add: graph_search_def goal_grid_def easy_state_def misplaced_tile_def
        search_loop.simps eval_defs)

lemma easy_euclidean:
  "graph_search (Problem easy_state) (Some euclidean_distance) =
     Some (Inr (Some (Node goal_grid (Some (Node easy_state None None 0 0 (PyFloat 1)))
                        (Some ''right'') 1 1 (PyFloat 0)), 1, 3))"
  by (simp add: graph_search_def goal_grid_def easy_state_def euclidean_distance_def
        search_loop.simps eval_defs)

lemma easy_uniform:
  "graph_search (Problem easy_state) (Some uniform_cost) =
     Some (Inr (Some (Node goal_grid (Some (Node easy_state None None 0 0 (PyInt 0)))
                        (Some ''right'') 1 1 (PyInt 0)), 3, 5))"
  by (simp add: graph_search_def goal_grid_def easy_state_def uniform_cost_def
        search_loop.simps eval_defs)

lemma corner_manhattan:
  "graph_search (Problem corner_state) (Some manhattan_distance) =
     Some (Inr (Some (Node goal_grid
                        (Some (Node [[1, 2, 3], [4, 5, 0], [7, 8, 6]]
                                 (Some (Node corner_state None None 0 0 (PyInt 2)))
                                 (Some ''down'') 1 1 (PyInt 1)))
                        (Some ''down'') 2 2 (PyInt 0)), 2, 3))"
  by (simp add: graph_search_def goal_grid_def corner_state_def manhattan_distance_def
        search_loop.simps eval_defs)

lemma corner_uniform:
  "uniform_cost_search (Problem corner_state) =
     Some (Inr (Some (Node goal_grid
                        (Some (Node [[1, 2, 3], [4, 5, 0], [7, 8, 6]]
                                 (Some (Node corner_state None None 0 0 (PyInt 0)))
                                 (Some ''down'') 1 1 (PyInt 0)))
                        (Some ''down'') 2 2 (PyInt 0)), 3, 4))"
  by (simp add: uniform_cost_search_def graph_search_def goal_grid_def corner_state_def
        uniform_cost_def search_loop.simps eval_defs)

lemma corner_reached:
  "reached_in 0 corner_state = [corner_state]"
  "reached_in 1 corner_state = [[[1, 2, 3], [4, 5, 0], [7, 8, 6]], [[1, 0, 2], [4, 5, 3], [7, 8, 6]]]"
  "goal_grid \<in> set (reached_in 2 corner_state)"
  by (simp_all add: numeral_2_eq_2 successors_def corner_state_def goal_grid_def eval_defs)

text \<open>
  C1, as the code has it. From \<open>[[1,2,3],[4,5,6],[7,0,8]]\<close> each of the four heuristics
  makes \<open>graph_search\<close> return the goal node at depth 1, reached by the move
  \<open>right\<close>. With the misplaced-tile, Manhattan and Euclidean heuristics one node is
  expanded; with the zero heuristic three nodes are expanded, because the children
  \<open>up\<close> and \<open>left\<close> have the same \<open>f = 1\<close> as the goal child and were pushed
  before it.
\<close>

theorem C1_easy_state_search:
  "graph_search (Problem easy_state) (Some misplaced_tile) =
     Some (Inr (Some (Node goal_grid (Some (Node easy_state None None 0 0 (PyInt 1)))
                        (Some ''right'') 1 1 (PyInt 0)), 1, 3)) \<and>
   graph_search (Problem easy_state) (Some manhattan_distance) =
     Some (Inr (Some (Node goal_grid (Some (Node easy_state None None 0 0 (PyInt 1)))
                        (Some ''right'') 1 1 (PyInt 0)), 1, 3)) \<and>
   graph_search (Problem easy_state) (Some euclidean_distance) =
     Some (Inr (Some (Node goal_grid (Some (Node easy_state None None 0 0 (PyFloat 1)))
                        (Some ''right'') 1 1 (PyFloat 0)), 1, 3)) \<and>
   graph_search (Problem easy_state) (Some uniform_cost) =
     Some (Inr (Some (Node goal_grid (Some (Node easy_state None None 0 0 (PyInt 0)))
                        (Some ''right'') 1 1 (PyInt 0)), 3, 5))"
  using easy_misplaced easy_manhattan easy_euclidean easy_uniform by simp

text \<open>
  C1, as the specification states it, fails for the zero heuristic: the count of expanded
  nodes returned for \<open>[[1,2,3],[4,5,6],[7,0,8]]\<close> is 3, which is not at most 2.
\<close>

theorem C1_uniform_cost_expands_three:
  "graph_search (Problem easy_state) (Some uniform_cost) =
     Some (Inr (Some (Node goal_grid (Some (Node easy_state None None 0 0 (PyInt 0)))
                        (Some ''right'') 1 1 (PyInt 0)), 3, 5)) \<and>
   \<not> (3::int) \<le> 2"
  using easy_uniform by simp

text \<open>
  C2. From \<open>[[1,2,0],[4,5,3],[7,8,6]]\<close> the goal is reached by two legal moves and by
  no shorter sequence of legal moves, so the optimal solution length is 2.
  \<open>graph_search\<close> with the Manhattan distance returns a goal node of depth 2, and
  uniform-cost search returns a goal node of depth 2 as well.
\<close>

theorem C2_corner_state_optimal:
  "goal_grid \<in> set (reached_in 2 corner_state) \<and>
   goal_grid \<notin> set (reached_in 1 corner_state) \<and>
   goal_grid \<notin> set (reached_in 0 corner_state) \<and>
   graph_search (Problem corner_state) (Some manhattan_distance) =
     Some (Inr (Some (Node goal_grid
                        (Some (Node [[1, 2, 3], [4, 5, 0], [7, 8, 6]]
                                 (Some (Node corner_state None None 0 0 (PyInt 2)))
                                 (Some ''down'') 1 1 (PyInt 1)))
                        (Some ''down'') 2 2 (PyInt 0)), 2, 3)) \<and>
   uniform_cost_search (Problem corner_state) =
     Some (Inr (Some (Node goal_grid
                        (Some (Node [[1, 2, 3], [4, 5, 0], [7, 8, 6]]
                                 (Some (Node corner_state None None 0 0 (PyInt 0)))
                                 (Some ''down'') 1 1 (PyInt 0)))
                        (Some ''down'') 2 2 (PyInt 0)), 3, 4))"
  using corner_manhattan corner_uniform corner_reached
  by (simp add: goal_grid_def corner_state_def)

text \<open>
  C10. When the initial state is the goal grid, \<open>graph_search\<close> returns the root node
  (depth 0, no parent, no operator) with no node expanded and a largest frontier of one
  entry, whatever value the heuristic gives to the goal grid; the same holds when no
  heuristic is passed.
\<close>

theorem C10_goal_initial_state:
  "(hf goal_grid = Inr v \<longrightarrow>
      graph_search (Problem goal_grid) (Some hf) =
        Some (Inr (Some (Node goal_grid None None 0 0 v), 0, 1))) \<and>
   graph_search (Problem goal_grid) None =
     Some (Inr (Some (Node goal_grid None None 0 0 (PyInt 0)), 0, 1))"
proof -
  obtain fv where "node_f (Node goal_grid None None 0 0 v) = Inr fv"
    using node_f_root by blast
  then show ?thesis
    by (simp add: graph_search_def goal_grid_def uniform_cost_def search_loop.simps eval_defs)
qed

theorem C10_goal_initial_state_witness:
  "manhattan_distance goal_grid = Inr (PyInt 0) \<and>
   graph_search (Problem goal_grid) (Some manhattan_distance) =
     Some (Inr (Some (Node goal_grid None None 0 0 (PyInt 0)), 0, 1))"
  using C10_goal_initial_state [of manhattan_distance "PyInt 0"]
  by (simp add: manhattan_distance_def goal_grid_def grid_indices_def cell_def py_getitem_def)

subsection \<open>The inversion count\<close>

lemma fold_count:
  "fold (\<lambda>j (acc::int). if P j then acc + 1 else acc) js a = a + int (length (filter P js))"
  by (induction js arbitrary: a) simp_all

lemma fold_add:
  "fold (\<lambda>i (acc::int). acc + c i) ks a = a + sum_list (map c ks)"
  by (induction ks arbitrary: a) simp_all

lemma count_inversions_sum:
  "count_inversions vs =
     (\<Sum>i\<leftarrow>[0..<length vs]. int (length (filter (\<lambda>j. vs ! i > vs ! j) [i + 1..<length vs])))"
  unfolding count_inversions_def fold_count by (simp add: fold_add)

lemma inner_head:
  "length (filter (\<lambda>j. x > (x # xs) ! j) [Suc 0..<Suc (length xs)]) =
   length (filter (\<lambda>y. x > y) xs)"
proof -
  have "filter (\<lambda>y. x > y) xs =
        filter (\<lambda>y. x > y) (map (\<lambda>j. (x # xs) ! j) [Suc 0..<Suc (length xs)])"
    unfolding map_Suc_upt [symmetric] by (simp add: comp_def map_nth del: upt_Suc)
  then show ?thesis by (simp add: filter_map comp_def del: upt_Suc)
qed

lemma inner_tail:
  "length (filter (\<lambda>j. xs ! i > (x # xs) ! j) [Suc (Suc i)..<Suc (length xs)]) =
   length (filter (\<lambda>j. xs ! i > xs ! j) [Suc i..<length xs])"
proof -
  have "[Suc (Suc i)..<Suc (length xs)] = map Suc [Suc i..<length xs]"
    by (simp add: map_Suc_upt)
  then show ?thesis by (simp add: filter_map comp_def del: upt_Suc)
qed

lemma count_inversions_Cons:
  "count_inversions (x # xs) = int (length (filter (\<lambda>y. x > y) xs)) + count_inversions xs"
proof -
  have "[0..<length (x # xs)] = 0 # map Suc [0..<length xs]"
    by (simp add: upt_conv_Cons map_Suc_upt del: upt_Suc)
  then show ?thesis
    unfolding count_inversions_sum
    by (simp add: comp_def inner_head inner_tail del: upt_Suc)
qed

lemma count_inversions_eq: "count_inversions vs = int (inversions vs)"
proof (induction vs)
  case Nil
  show ?case by (simp add: count_inversions_def)
next
  case (Cons x xs)
  then show ?case by (simp add: count_inversions_Cons)
qed

lemma inversions_spec_sum:
  "inversions_spec vs =
     (\<Sum>i\<leftarrow>[0..<length vs]. length (filter (\<lambda>j. vs ! i > vs ! j) [i + 1..<length vs]))"
proof -
  let ?n = "length vs"
  let ?B = "\<lambda>i. {j. vs ! i > vs ! j} \<inter> set [i + 1..<?n]"
  have "{(i, j). i < j \<and> j < ?n \<and> vs ! i > vs ! j} = (SIGMA i:{0..<?n}. ?B i)"
    by auto
  then have "inversions_spec vs = (\<Sum>i\<in>{0..<?n}. card (?B i))"
    unfolding inversions_spec_def by (simp del: set_upt)
  also have "\<dots> = (\<Sum>i\<in>{0..<?n}. length (filter (\<lambda>j. vs ! i > vs ! j) [i + 1..<?n]))"
    by (simp add: distinct_length_filter del: set_upt)
  also have "\<dots> = (\<Sum>i\<leftarrow>[0..<?n]. length (filter (\<lambda>j. vs ! i > vs ! j) [i + 1..<?n]))"
    by (simp add: interv_sum_list_conv_sum_set_nat)
  finally show ?thesis .
qed

lemma sum_list_int: "(\<Sum>i\<leftarrow>ks. int (c i)) = int (\<Sum>i\<leftarrow>ks. c i)"
  by (induction ks) simp_all

lemma count_inversions_spec: "count_inversions vs = int (inversions_spec vs)"
  unfolding count_inversions_sum inversions_spec_sum
  by (simp only: sum_list_int)

lemma is_solvable_inversions: "is_solvable s = even (inversions (tiles_of s))"
  unfolding is_solvable_def count_inversions_eq by presburger

text \<open>
  C4. \<open>is_solvable\<close> holds exactly when the number of inversions among the values other
  than 0, read in row-major order, is even; this is so for every grid, valid or not. The
  goal grid is solvable and the grid with 7 and 8 exchanged is not.
\<close>

theorem C4_is_solvable_parity:
  "is_solvable s = even (inversions_spec (filter (\<lambda>v. v \<noteq> 0) (concat s))) \<and>
   is_solvable goal_grid \<and> \<not> is_solvable swapped_state"
proof -
  have "is_solvable s = even (inversions_spec (filter (\<lambda>v. v \<noteq> 0) (concat s)))"
    unfolding is_solvable_def tiles_of_def count_inversions_spec by presburger
  moreover have "is_solvable goal_grid" "\<not> is_solvable swapped_state"
    by (simp_all add: is_solvable_inversions tiles_of_def goal_grid_def swapped_state_def)
  ultimately show ?thesis by simp
qed

subsection \<open>Moves of the blank, position by position\<close>

lemmas move_defs = cell_def set_cell_def py_getitem_def py_setitem_def

lemma inversions_rotate:
  "x \<noteq> y \<Longrightarrow> x \<noteq> z \<Longrightarrow>
     even (inversions (us @ x # y # z # vs)) = even (inversions (us @ y # z # x # vs))"
proof (induction us)
  case Nil
  then show ?case by auto
next
  case (Cons u us)
  then show ?case by simp
qed

lemma find_blank_00:
  shows "find_blank [[0, x1, x2], [x3, x4, x5], [x6, x7, x8]] = Inr (Some (0, 0))"
  by (simp add: find_blank_def grid_indices_def cell_def py_getitem_def)

lemma moves_00:
  shows "operators [[0, x1, x2], [x3, x4, x5], [x6, x7, x8]] = Inr [''down'', ''right'']"
    and "result [[0, x1, x2], [x3, x4, x5], [x6, x7, x8]] ''up'' = Inr [[x6, x1, x2], [x3, x4, x5], [0, x7, x8]]"
    and "result [[0, x1, x2], [x3, x4, x5], [x6, x7, x8]] ''down'' = Inr [[x3, x1, x2], [0, x4, x5], [x6, x7, x8]]"
    and "result [[0, x1, x2], [x3, x4, x5], [x6, x7, x8]] ''left'' = Inr [[x2, x1, 0], [x3, x4, x5], [x6, x7, x8]]"
    and "result [[0, x1, x2], [x3, x4, x5], [x6, x7, x8]] ''right'' = Inr [[x1, 0, x2], [x3, x4, x5], [x6, x7, x8]]"
  by (simp_all add: operators_def result_def find_blank_00 move_defs)

lemma find_blank_01:
  assumes "x0 \<noteq> 0"
  shows "find_blank [[x0, 0, x2], [x3, x4, x5], [x6, x7, x8]] = Inr (Some (0, 1))"
  using assms by (simp add: find_blank_def grid_indices_def cell_def py_getitem_def)

lemma moves_01:
  assumes "x0 \<noteq> 0"
  shows "operators [[x0, 0, x2], [x3, x4, x5], [x6, x7, x8]] = Inr [''down'', ''left'', ''right'']"
    and "result [[x0, 0, x2], [x3, x4, x5], [x6, x7, x8]] ''up'' = Inr [[x0, x7, x2], [x3, x4, x5], [x6, 0, x8]]"
    and "result [[x0, 0, x2], [x3, x4, x5], [x6, x7, x8]] ''down'' = Inr [[x0, x4, x2], [x3, 0, x5], [x6, x7, x8]]"
    and "result [[x0, 0, x2], [x3, x4, x5], [x6, x7, x8]] ''left'' = Inr [[0, x0, x2], [x3, x4, x5], [x6, x7, x8]]"
    and "result [[x0, 0, x2], [x3, x4, x5], [x6, x7, x8]] ''right'' = Inr [[x0, x2, 0], [x3, x4, x5], [x6, x7, x8]]"
  using assms by (simp_all add: operators_def result_def find_blank_01 move_defs)

lemma find_blank_02:
  assumes "x0 \<noteq> 0" and "x1 \<noteq> 0"
  shows "find_blank [[x0, x1, 0], [x3, x4, x5], [x6, x7, x8]] = Inr (Some (0, 2))"
  using assms by (simp add: find_blank_def grid_indices_def cell_def py_getitem_def)

lemma moves_02:
  assumes "x0 \<noteq> 0" and "x1 \<noteq> 0"
  shows "operators [[x0, x1, 0], [x3, x4, x5], [x6, x7, x8]] = Inr [''down'', ''left'']"
    and "result [[x0, x1, 0], [x3, x4, x5], [x6, x7, x8]] ''up'' = Inr [[x0, x1, x8], [x3, x4, x5], [x6, x7, 0]]"
    and "result [[x0, x1, 0], [x3, x4, x5], [x6, x7, x8]] ''down'' = Inr [[x0, x1, x5], [x3, x4, 0], [x6, x7, x8]]"
    and "result [[x0, x1, 0], [x3, x4, x5], [x6, x7, x8]] ''left'' = Inr [[x0, 0, x1], [x3, x4, x5], [x6, x7, x8]]"
    and "result [[x0, x1, 0], [x3, x4, x5], [x6, x7, x8]] ''right'' = Inl IndexError"
  using assms by (simp_all add: operators_def result_def find_blank_02 move_defs)

lemma find_blank_10:
  assumes "x0 \<noteq> 0" and "x1 \<noteq> 0" and "x2 \<noteq> 0"
  shows "find_blank [[x0, x1, x2], [0, x4, x5], [x6, x7, x8]] = Inr (Some (1, 0))"
  using assms by (simp add: find_blank_def grid_indices_def cell_def py_getitem_def)

lemma moves_10:
  assumes "x0 \<noteq> 0" and "x1 \<noteq> 0" and "x2 \<noteq> 0"
  shows "operators [[x0, x1, x2], [0, x4, x5], [x6, x7, x8]] = Inr [''up'', ''down'', ''right'']"
    and "result [[x0, x1, x2], [0, x4, x5], [x6, x7, x8]] ''up'' = Inr [[0, x1, x2], [x0, x4, x5], [x6, x7, x8]]"
    and "result [[x0, x1, x2], [0, x4, x5], [x6, x7, x8]] ''down'' = Inr [[x0, x1, x2], [x6, x4, x5], [0, x7, x8]]"
    and "result [[x0, x1, x2], [0, x4, x5], [x6, x7, x8]] ''left'' = Inr [[x0, x1, x2], [x5, x4, 0], [x6, x7, x8]]"
    and "result [[x0, x1, x2], [0, x4, x5], [x6, x7, x8]] ''right'' = Inr [[x0, x1, x2], [x4, 0, x5], [x6, x7, x8]]"
  using assms by (simp_all add: operators_def result_def find_blank_10 move_defs)

lemma find_blank_11:
  assumes "x0 \<noteq> 0" and "x1 \<noteq> 0" and "x2 \<noteq> 0" and "x3 \<noteq> 0"
  shows "find_blank [[x0, x1, x2], [x3, 0, x5], [x6, x7, x8]] = Inr (Some (1, 1))"
  using assms by (simp add: find_blank_def grid_indices_def cell_def py_getitem_def)

lemma moves_11:
  assumes "x0 \<noteq> 0" and "x1 \<noteq> 0" and "x2 \<noteq> 0" and "x3 \<noteq> 0"
  shows "operators [[x0, x1, x2], [x3, 0, x5], [x6, x7, x8]] = Inr [''up'', ''down'', ''left'', ''right'']"
    and "result [[x0, x1, x2], [x3, 0, x5], [x6, x7, x8]] ''up'' = Inr [[x0, 0, x2], [x3, x1, x5], [x6, x7, x8]]"
    and "result [[x0, x1, x2], [x3, 0, x5], [x6, x7, x8]] ''down'' = Inr [[x0, x1, x2], [x3, x7, x5], [x6, 0, x8]]"
    and "result [[x0, x1, x2], [x3, 0, x5], [x6, x7, x8]] ''left'' = Inr [[x0, x1, x2], [0, x3, x5], [x6, x7, x8]]"
    and "result [[x0, x1, x2], [x3, 0, x5], [x6, x7, x8]] ''right'' = Inr [[x0, x1, x2], [x3, x5, 0], [x6, x7, x8]]"
  using assms by (simp_all add: operators_def result_def find_blank_11 move_defs)

lemma find_blank_12:
  assumes "x0 \<noteq> 0" and "x1 \<noteq> 0" and "x2 \<noteq> 0" and "x3 \<noteq> 0" and "x4 \<noteq> 0"
  shows "find_blank [[x0, x1, x2], [x3, x4, 0], [x6, x7, x8]] = Inr (Some (1, 2))"
  using assms by (simp add: find_blank_def grid_indices_def cell_def py_getitem_def)

lemma moves_12:
  assumes "x0 \<noteq> 0" and "x1 \<noteq> 0" and "x2 \<noteq> 0" and "x3 \<noteq> 0" and "x4 \<noteq> 0"
  shows "operators [[x0, x1, x2], [x3, x4, 0], [x6, x7, x8]] = Inr [''up'', ''down'', ''left'']"
    and "result [[x0, x1, x2], [x3, x4, 0], [x6, x7, x8]] ''up'' = Inr [[x0, x1, 0], [x3, x4, x2], [x6, x7, x8]]"
    and "result [[x0, x1, x2], [x3, x4, 0], [x6, x7, x8]] ''down'' = Inr [[x0, x1, x2], [x3, x4, x8], [x6, x7, 0]]"
    and "result [[x0, x1, x2], [x3, x4, 0], [x6, x7, x8]] ''left'' = Inr [[x0, x1, x2], [x3, 0, x4], [x6, x7, x8]]"
    and "result [[x0, x1, x2], [x3, x4, 0], [x6, x7, x8]] ''right'' = Inl IndexError"
  using assms by (simp_all add: operators_def result_def find_blank_12 move_defs)

lemma find_blank_20:
  assumes "x0 \<noteq> 0" and "x1 \<noteq> 0" and "x2 \<noteq> 0" and "x3 \<noteq> 0" and "x4 \<noteq> 0" and "x5 \<noteq> 0"
  shows "find_blank [[x0, x1, x2], [x3, x4, x5], [0, x7, x8]] = Inr (Some (2, 0))"
  using assms by (simp add: find_blank_def grid_indices_def cell_def py_getitem_def)

lemma moves_20:
  assumes "x0 \<noteq> 0" and "x1 \<noteq> 0" and "x2 \<noteq> 0" and "x3 \<noteq> 0" and "x4 \<noteq> 0" and "x5 \<noteq> 0"
  shows "operators [[x0, x1, x2], [x3, x4, x5], [0, x7, x8]] = Inr [''up'', ''right'']"
    and "result [[x0, x1, x2], [x3, x4, x5], [0, x7, x8]] ''up'' = Inr [[x0, x1, x2], [0, x4, x5], [x3, x7, x8]]"
    and "result [[x0, x1, x2], [x3, x4, x5], [0, x7, x8]] ''down'' = Inl IndexError"
    and "result [[x0, x1, x2], [x3, x4, x5], [0, x7, x8]] ''left'' = Inr [[x0, x1, x2], [x3, x4, x5], [x8, x7, 0]]"
    and "result [[x0, x1, x2], [x3, x4, x5], [0, x7, x8]] ''right'' = Inr [[x0, x1, x2], [x3, x4, x5], [x7, 0, x8]]"
  using assms by (simp_all add: operators_def result_def find_blank_20 move_defs)

lemma find_blank_21:
  assumes "x0 \<noteq> 0" and "x1 \<noteq> 0" and "x2 \<noteq> 0" and "x3 \<noteq> 0" and "x4 \<noteq> 0" and "x5 \<noteq> 0" and "x6 \<noteq> 0"
  shows "find_blank [[x0, x1, x2], [x3, x4, x5], [x6, 0, x8]] = Inr (Some (2, 1))"
  using assms by (simp add: find_blank_def grid_indices_def cell_def py_getitem_def)

lemma moves_21:
  assumes "x0 \<noteq> 0" and "x1 \<noteq> 0" and "x2 \<noteq> 0" and "x3 \<noteq> 0" and "x4 \<noteq> 0" and "x5 \<noteq> 0" and "x6 \<noteq> 0"
  shows "operators [[x0, x1, x2], [x3, x4, x5], [x6, 0, x8]] = Inr [''up'', ''left'', ''right'']"
    and "result [[x0, x1, x2], [x3, x4, x5], [x6, 0, x8]] ''up'' = Inr [[x0, x1, x2], [x3, 0, x5], [x6, x4, x8]]"
    and "result [[x0, x1, x2], [x3, x4, x5], [x6, 0, x8]] ''down'' = Inl IndexError"
    and "result [[x0, x1, x2], [x3, x4, x5], [x6, 0, x8]] ''left'' = Inr [[x0, x1, x2], [x3, x4, x5], [0, x6, x8]]"
    and "result [[x0, x1, x2], [x3, x4, x5], [x6, 0, x8]] ''right'' = Inr [[x0, x1, x2], [x3, x4, x5], [x6, x8, 0]]"
  using assms by (simp_all add: operators_def result_def find_blank_21 move_defs)

lemma find_blank_22:
  assumes "x0 \<noteq> 0" and "x1 \<noteq> 0" and "x2 \<noteq> 0" and "x3 \<noteq> 0" and "x4 \<noteq> 0" and "x5 \<noteq> 0" and "x6 \<noteq> 0" and "x7 \<noteq> 0"
  shows "find_blank [[x0, x1, x2], [x3, x4, x5], [x6, x7, 0]] = Inr (Some (2, 2))"
  using assms by (simp add: find_blank_def grid_indices_def cell_def py_getitem_def)

lemma moves_22:
  assumes "x0 \<noteq> 0" and "x1 \<noteq> 0" and "x2 \<noteq> 0" and "x3 \<noteq> 0" and "x4 \<noteq> 0" and "x5 \<noteq> 0" and "x6 \<noteq> 0" and "x7 \<noteq> 0"
  shows "operators [[x0, x1, x2], [x3, x4, x5], [x6, x7, 0]] = Inr [''up'', ''left'']"
    and "result [[x0, x1, x2], [x3, x4, x5], [x6, x7, 0]] ''up'' = Inr [[x0, x1, x2], [x3, x4, 0], [x6, x7, x5]]"
    and "result [[x0, x1, x2], [x3, x4, x5], [x6, x7, 0]] ''down'' = Inl IndexError"
    and "result [[x0, x1, x2], [x3, x4, x5], [x6, x7, 0]] ''left'' = Inr [[x0, x1, x2], [x3, x4, x5], [x6, 0, x7]]"
    and "result [[x0, x1, x2], [x3, x4, x5], [x6, x7, 0]] ''right'' = Inl IndexError"
  using assms by (simp_all add: operators_def result_def find_blank_22 move_defs)

lemma legal_00_down:
  assumes "distinct [0, x1, x2, x3, x4, x5, x6, x7, x8]"
  shows "result [[x3, x1, x2], [0, x4, x5], [x6, x7, x8]] ''up'' = Inr [[0, x1, x2], [x3, x4, x5], [x6, x7, x8]]"
    and "is_solvable [[x3, x1, x2], [0, x4, x5], [x6, x7, x8]] = is_solvable [[0, x1, x2], [x3, x4, x5], [x6, x7, x8]]"
proof -
  show "result [[x3, x1, x2], [0, x4, x5], [x6, x7, x8]] ''up'' = Inr [[0, x1, x2], [x3, x4, x5], [x6, x7, x8]]"
    using assms by (simp add: moves_10)
  have "x3 \<noteq> x1" "x3 \<noteq> x2"
    using assms by auto
  from inversions_rotate [OF this, of "[]" "[x4, x5, x6, x7, x8]"] assms
  show "is_solvable [[x3, x1, x2], [0, x4, x5], [x6, x7, x8]] = is_solvable [[0, x1, x2], [x3, x4, x5], [x6, x7, x8]]"
    by (simp add: is_solvable_inversions tiles_of_def del: inversions.simps)
qed

lemma legal_00_right:
  assumes "distinct [0, x1, x2, x3, x4, x5, x6, x7, x8]"
  shows "result [[x1, 0, x2], [x3, x4, x5], [x6, x7, x8]] ''left'' = Inr [[0, x1, x2], [x3, x4, x5], [x6, x7, x8]]"
    and "is_solvable [[x1, 0, x2], [x3, x4, x5], [x6, x7, x8]] = is_solvable [[0, x1, x2], [x3, x4, x5], [x6, x7, x8]]"
proof -
  show "result [[x1, 0, x2], [x3, x4, x5], [x6, x7, x8]] ''left'' = Inr [[0, x1, x2], [x3, x4, x5], [x6, x7, x8]]"
    using assms by (simp add: moves_01)
  show "is_solvable [[x1, 0, x2], [x3, x4, x5], [x6, x7, x8]] = is_solvable [[0, x1, x2], [x3, x4, x5], [x6, x7, x8]]"
    using assms by (simp add: is_solvable_inversions tiles_of_def del: inversions.simps)
qed

lemma legal_01_down:
  assumes "distinct [x0, 0, x2, x3, x4, x5, x6, x7, x8]"
  shows "result [[x0, x4, x2], [x3, 0, x5], [x6, x7, x8]] ''up'' = Inr [[x0, 0, x2], [x3, x4, x5], [x6, x7, x8]]"
    and "is_solvable [[x0, x4, x2], [x3, 0, x5], [x6, x7, x8]] = is_solvable [[x0, 0, x2], [x3, x4, x5], [x6, x7, x8]]"
proof -
  show "result [[x0, x4, x2], [x3, 0, x5], [x6, x7, x8]] ''up'' = Inr [[x0, 0, x2], [x3, x4, x5], [x6, x7, x8]]"
    using assms by (simp add: moves_11)
  have "x4 \<noteq> x2" "x4 \<noteq> x3"
    using assms by auto
  from inversions_rotate [OF this, of "[x0]" "[x5, x6, x7, x8]"] assms
  show "is_solvable [[x0, x4, x2], [x3, 0, x5], [x6, x7, x8]] = is_solvable [[x0, 0, x2], [x3, x4, x5], [x6, x7, x8]]"
    by (simp add: is_solvable_inversions tiles_of_def del: inversions.simps)
qed

lemma legal_01_left:
  assumes "distinct [x0, 0, x2, x3, x4, x5, x6, x7, x8]"
  shows "result [[0, x0, x2], [x3, x4, x5], [x6, x7, x8]] ''right'' = Inr [[x0, 0, x2], [x3, x4, x5], [x6, x7, x8]]"
    and "is_solvable [[0, x0, x2], [x3, x4, x5], [x6, x7, x8]] = is_solvable [[x0, 0, x2], [x3, x4, x5], [x6, x7, x8]]"
proof -
  show "result [[0, x0, x2], [x3, x4, x5], [x6, x7, x8]] ''right'' = Inr [[x0, 0, x2], [x3, x4, x5], [x6, x7, x8]]"
    using assms by (simp add: moves_00)
  show "is_solvable [[0, x0, x2], [x3, x4, x5], [x6, x7, x8]] = is_solvable [[x0, 0, x2], [x3, x4, x5], [x6, x7, x8]]"
    using assms by (simp add: is_solvable_inversions tiles_of_def del: inversions.simps)
qed

lemma legal_01_right:
  assumes "distinct [x0, 0, x2, x3, x4, x5, x6, x7, x8]"
  shows "result [[x0, x2, 0], [x3, x4, x5], [x6, x7, x8]] ''left'' = Inr [[x0, 0, x2], [x3, x4, x5], [x6, x7, x8]]"
    and "is_solvable [[x0, x2, 0], [x3, x4, x5], [x6, x7, x8]] = is_solvable [[x0, 0, x2], [x3, x4, x5], [x6, x7, x8]]"
proof -
  show "result [[x0, x2, 0], [x3, x4, x5], [x6, x7, x8]] ''left'' = Inr [[x0, 0, x2], [x3, x4, x5], [x6, x7, x8]]"
    using assms by (simp add: moves_02)
  show "is_solvable [[x0, x2, 0], [x3, x4, x5], [x6, x7, x8]] = is_solvable [[x0, 0, x2], [x3, x4, x5], [x6, x7, x8]]"
    using assms by (simp add: is_solvable_inversions tiles_of_def del: inversions.simps)
qed

lemma legal_02_down:
  assumes "distinct [x0, x1, 0, x3, x4, x5, x6, x7, x8]"
  shows "result [[x0, x1, x5], [x3, x4, 0], [x6, x7, x8]] ''up'' = Inr [[x0, x1, 0], [x3, x4, x5], [x6, x7, x8]]"
    and "is_solvable [[x0, x1, x5], [x3, x4, 0], [x6, x7, x8]] = is_solvable [[x0, x1, 0], [x3, x4, x5], [x6, x7, x8]]"
proof -
  show "result [[x0, x1, x5], [x3, x4, 0], [x6, x7, x8]] ''up'' = Inr [[x0, x1, 0], [x3, x4, x5], [x6, x7, x8]]"
    using assms by (simp add: moves_12)
  have "x5 \<noteq> x3" "x5 \<noteq> x4"
    using assms by auto
  from inversions_rotate [OF this, of "[x0, x1]" "[x6, x7, x8]"] assms
  show "is_solvable [[x0, x1, x5], [x3, x4, 0], [x6, x7, x8]] = is_solvable [[x0, x1, 0], [x3, x4, x5], [x6, x7, x8]]"
    by (simp add: is_solvable_inversions tiles_of_def del: inversions.simps)
qed

lemma legal_02_left:
  assumes "distinct [x0, x1, 0, x3, x4, x5, x6, x7, x8]"
  shows "result [[x0, 0, x1], [x3, x4, x5], [x6, x7, x8]] ''right'' = Inr [[x0, x1, 0], [x3, x4, x5], [x6, x7, x8]]"
    and "is_solvable [[x0, 0, x1], [x3, x4, x5], [x6, x7, x8]] = is_solvable [[x0, x1, 0], [x3, x4, x5], [x6, x7, x8]]"
proof -
  show "result [[x0, 0, x1], [x3, x4, x5], [x6, x7, x8]] ''right'' = Inr [[x0, x1, 0], [x3, x4, x5], [x6, x7, x8]]"
    using assms by (simp add: moves_01)
  show "is_solvable [[x0, 0, x1], [x3, x4, x5], [x6, x7, x8]] = is_solvable [[x0, x1, 0], [x3, x4, x5], [x6, x7, x8]]"
    using assms by (simp add: is_solvable_inversions tiles_of_def del: inversions.simps)
qed

lemma legal_10_up:
  assumes "distinct [x0, x1, x2, 0, x4, x5, x6, x7, x8]"
  shows "result [[0, x1, x2], [x0, x4, x5], [x6, x7, x8]] ''down'' = Inr [[x0, x1, x2], [0, x4, x5], [x6, x7, x8]]"
    and "is_solvable [[0, x1, x2], [x0, x4, x5], [x6, x7, x8]] = is_solvable [[x0, x1, x2], [0, x4, x5], [x6, x7, x8]]"
proof -
  show "result [[0, x1, x2], [x0, x4, x5], [x6, x7, x8]] ''down'' = Inr [[x0, x1, x2], [0, x4, x5], [x6, x7, x8]]"
    using assms by (simp add: moves_00)
  have "x0 \<noteq> x1" "x0 \<noteq> x2"
    using assms by auto
  from inversions_rotate [OF this, of "[]" "[x4, x5, x6, x7, x8]"] assms
  show "is_solvable [[0, x1, x2], [x0, x4, x5], [x6, x7, x8]] = is_solvable [[x0, x1, x2], [0, x4, x5], [x6, x7, x8]]"
    by (simp add: is_solvable_inversions tiles_of_def del: inversions.simps)
qed

lemma legal_10_down:
  assumes "distinct [x0, x1, x2, 0, x4, x5, x6, x7, x8]"
  shows "result [[x0, x1, x2], [x6, x4, x5], [0, x7, x8]] ''up'' = Inr [[x0, x1, x2], [0, x4, x5], [x6, x7, x8]]"
    and "is_solvable [[x0, x1, x2], [x6, x4, x5], [0, x7, x8]] = is_solvable [[x0, x1, x2], [0, x4, x5], [x6, x7, x8]]"
proof -
  show "result [[x0, x1, x2], [x6, x4, x5], [0, x7, x8]] ''up'' = Inr [[x0, x1, x2], [0, x4, x5], [x6, x7, x8]]"
    using assms by (simp add: moves_20)
  have "x6 \<noteq> x4" "x6 \<noteq> x5"
    using assms by auto
  from inversions_rotate [OF this, of "[x0, x1, x2]" "[x7, x8]"] assms
  show "is_solvable [[x0, x1, x2], [x6, x4, x5], [0, x7, x8]] = is_solvable [[x0, x1, x2], [0, x4, x5], [x6, x7, x8]]"
    by (simp add: is_solvable_inversions tiles_of_def del: inversions.simps)
qed

lemma legal_10_right:
  assumes "distinct [x0, x1, x2, 0, x4, x5, x6, x7, x8]"
  shows "result [[x0, x1, x2], [x4, 0, x5], [x6, x7, x8]] ''left'' = Inr [[x0, x1, x2], [0, x4, x5], [x6, x7, x8]]"
    and "is_solvable [[x0, x1, x2], [x4, 0, x5], [x6, x7, x8]] = is_solvable [[x0, x1, x2], [0, x4, x5], [x6, x7, x8]]"
proof -
  show "result [[x0, x1, x2], [x4, 0, x5], [x6, x7, x8]] ''left'' = Inr [[x0, x1, x2], [0, x4, x5], [x6, x7, x8]]"
    using assms by (simp add: moves_11)
  show "is_solvable [[x0, x1, x2], [x4, 0, x5], [x6, x7, x8]] = is_solvable [[x0, x1, x2], [0, x4, x5], [x6, x7, x8]]"
    using assms by (simp add: is_solvable_inversions tiles_of_def del: inversions.simps)
qed

lemma legal_11_up:
  assumes "distinct [x0, x1, x2, x3, 0, x5, x6, x7, x8]"
  shows "result [[x0, 0, x2], [x3, x1, x5], [x6, x7, x8]] ''down'' = Inr [[x0, x1, x2], [x3, 0, x5], [x6, x7, x8]]"
    and "is_solvable [[x0, 0, x2], [x3, x1, x5], [x6, x7, x8]] = is_solvable [[x0, x1, x2], [x3, 0, x5], [x6, x7, x8]]"
proof -
  show "result [[x0, 0, x2], [x3, x1, x5], [x6, x7, x8]] ''down'' = Inr [[x0, x1, x2], [x3, 0, x5], [x6, x7, x8]]"
    using assms by (simp add: moves_01)
  have "x1 \<noteq> x2" "x1 \<noteq> x3"
    using assms by auto
  from inversions_rotate [OF this, of "[x0]" "[x5, x6, x7, x8]"] assms
  show "is_solvable [[x0, 0, x2], [x3, x1, x5], [x6, x7, x8]] = is_solvable [[x0, x1, x2], [x3, 0, x5], [x6, x7, x8]]"
    by (simp add: is_solvable_inversions tiles_of_def del: inversions.simps)
qed

lemma legal_11_down:
  assumes "distinct [x0, x1, x2, x3, 0, x5, x6, x7, x8]"
  shows "result [[x0, x1, x2], [x3, x7, x5], [x6, 0, x8]] ''up'' = Inr [[x0, x1, x2], [x3, 0, x5], [x6, x7, x8]]"
    and "is_solvable [[x0, x1, x2], [x3, x7, x5], [x6, 0, x8]] = is_solvable [[x0, x1, x2], [x3, 0, x5], [x6, x7, x8]]"
proof -
  show "result [[x0, x1, x2], [x3, x7, x5], [x6, 0, x8]] ''up'' = Inr [[x0, x1, x2], [x3, 0, x5], [x6, x7, x8]]"
    using assms by (simp add: moves_21)
  have "x7 \<noteq> x5" "x7 \<noteq> x6"
    using assms by auto
  from inversions_rotate [OF this, of "[x0, x1, x2, x3]" "[x8]"] assms
  show "is_solvable [[x0, x1, x2], [x3, x7, x5], [x6, 0, x8]] = is_solvable [[x0, x1, x2], [x3, 0, x5], [x6, x7, x8]]"
    by (simp add: is_solvable_inversions tiles_of_def del: inversions.simps)
qed

lemma legal_11_left:
  assumes "distinct [x0, x1, x2, x3, 0, x5, x6, x7, x8]"
  shows "result [[x0, x1, x2], [0, x3, x5], [x6, x7, x8]] ''right'' = Inr [[x0, x1, x2], [x3, 0, x5], [x6, x7, x8]]"
    and "is_solvable [[x0, x1, x2], [0, x3, x5], [x6, x7, x8]] = is_solvable [[x0, x1, x2], [x3, 0, x5], [x6, x7, x8]]"
proof -
  show "result [[x0, x1, x2], [0, x3, x5], [x6, x7, x8]] ''right'' = Inr [[x0, x1, x2], [x3, 0, x5], [x6, x7, x8]]"
    using assms by (simp add: moves_10)
  show "is_solvable [[x0, x1, x2], [0, x3, x5], [x6, x7, x8]] = is_solvable [[x0, x1, x2], [x3, 0, x5], [x6, x7, x8]]"
    using assms by (simp add: is_solvable_inversions tiles_of_def del: inversions.simps)
qed

lemma legal_11_right:
  assumes "distinct [x0, x1, x2, x3, 0, x5, x6, x7, x8]"
  shows "result [[x0, x1, x2], [x3, x5, 0], [x6, x7, x8]] ''left'' = Inr [[x0, x1, x2], [x3, 0, x5], [x6, x7, x8]]"
    and "is_solvable [[x0, x1, x2], [x3, x5, 0], [x6, x7, x8]] = is_solvable [[x0, x1, x2], [x3, 0, x5], [x6, x7, x8]]"
proof -
  show "result [[x0, x1, x2], [x3, x5, 0], [x6, x7, x8]] ''left'' = Inr [[x0, x1, x2], [x3, 0, x5], [x6, x7, x8]]"
    using assms by (simp add: moves_12)
  show "is_solvable [[x0, x1, x2], [x3, x5, 0], [x6, x7, x8]] = is_solvable [[x0, x1, x2], [x3, 0, x5], [x6, x7, x8]]"
    using assms by (simp add: is_solvable_inversions tiles_of_def del: inversions.simps)
qed

lemma legal_12_up:
  assumes "distinct [x0, x1, x2, x3, x4, 0, x6, x7, x8]"
  shows "result [[x0, x1, 0], [x3, x4, x2], [x6, x7, x8]] ''down'' = Inr [[x0, x1, x2], [x3, x4, 0], [x6, x7, x8]]"
    and "is_solvable [[x0, x1, 0], [x3, x4, x2], [x6, x7, x8]] = is_solvable [[x0, x1, x2], [x3, x4, 0], [x6, x7, x8]]"
proof -
  show "result [[x0, x1, 0], [x3, x4, x2], [x6, x7, x8]] ''down'' = Inr [[x0, x1, x2], [x3, x4, 0], [x6, x7, x8]]"
    using assms by (simp add: moves_02)
  have "x2 \<noteq> x3" "x2 \<noteq> x4"
    using assms by auto
  from inversions_rotate [OF this, of "[x0, x1]" "[x6, x7, x8]"] assms
  show "is_solvable [[x0, x1, 0], [x3, x4, x2], [x6, x7, x8]] = is_solvable [[x0, x1, x2], [x3, x4, 0], [x6, x7, x8]]"
    by (simp add: is_solvable_inversions tiles_of_def del: inversions.simps)
qed

lemma legal_12_down:
  assumes "distinct [x0, x1, x2, x3, x4, 0, x6, x7, x8]"
  shows "result [[x0, x1, x2], [x3, x4, x8], [x6, x7, 0]] ''up'' = Inr [[x0, x1, x2], [x3, x4, 0], [x6, x7, x8]]"
    and "is_solvable [[x0, x1, x2], [x3, x4, x8], [x6, x7, 0]] = is_solvable [[x0, x1, x2], [x3, x4, 0], [x6, x7, x8]]"
proof -
  show "result [[x0, x1, x2], [x3, x4, x8], [x6, x7, 0]] ''up'' = Inr [[x0, x1, x2], [x3, x4, 0], [x6, x7, x8]]"
    using assms by (simp add: moves_22)
  have "x8 \<noteq> x6" "x8 \<noteq> x7"
    using assms by auto
  from inversions_rotate [OF this, of "[x0, x1, x2, x3, x4]" "[]"] assms
  show "is_solvable [[x0, x1, x2], [x3, x4, x8], [x6, x7, 0]] = is_solvable [[x0, x1, x2], [x3, x4, 0], [x6, x7, x8]]"
    by (simp add: is_solvable_inversions tiles_of_def del: inversions.simps)
qed

lemma legal_12_left:
  assumes "distinct [x0, x1, x2, x3, x4, 0, x6, x7, x8]"
  shows "result [[x0, x1, x2], [x3, 0, x4], [x6, x7, x8]] ''right'' = Inr [[x0, x1, x2], [x3, x4, 0], [x6, x7, x8]]"
    and "is_solvable [[x0, x1, x2], [x3, 0, x4], [x6, x7, x8]] = is_solvable [[x0, x1, x2], [x3, x4, 0], [x6, x7, x8]]"
proof -
  show "result [[x0, x1, x2], [x3, 0, x4], [x6, x7, x8]] ''right'' = Inr [[x0, x1, x2], [x3, x4, 0], [x6, x7, x8]]"
    using assms by (simp add: moves_11)
  show "is_solvable [[x0, x1, x2], [x3, 0, x4], [x6, x7, x8]] = is_solvable [[x0, x1, x2], [x3, x4, 0], [x6, x7, x8]]"
    using assms by (simp add: is_solvable_inversions tiles_of_def del: inversions.simps)
qed

lemma legal_20_up:
  assumes "distinct [x0, x1, x2, x3, x4, x5, 0, x7, x8]"
  shows "result [[x0, x1, x2], [0, x4, x5], [x3, x7, x8]] ''down'' = Inr [[x0, x1, x2], [x3, x4, x5], [0, x7, x8]]"
    and "is_solvable [[x0, x1, x2], [0, x4, x5], [x3, x7, x8]] = is_solvable [[x0, x1, x2], [x3, x4, x5], [0, x7, x8]]"
proof -
  show "result [[x0, x1, x2], [0, x4, x5], [x3, x7, x8]] ''down'' = Inr [[x0, x1, x2], [x3, x4, x5], [0, x7, x8]]"
    using assms by (simp add: moves_10)
  have "x3 \<noteq> x4" "x3 \<noteq> x5"
    using assms by auto
  from inversions_rotate [OF this, of "[x0, x1, x2]" "[x7, x8]"] assms
  show "is_solvable [[x0, x1, x2], [0, x4, x5], [x3, x7, x8]] = is_solvable [[x0, x1, x2], [x3, x4, x5], [0, x7, x8]]"
    by (simp add: is_solvable_inversions tiles_of_def del: inversions.simps)
qed

lemma legal_20_right:
  assumes "distinct [x0, x1, x2, x3, x4, x5, 0, x7, x8]"
  shows "result [[x0, x1, x2], [x3, x4, x5], [x7, 0, x8]] ''left'' = Inr [[x0, x1, x2], [x3, x4, x5], [0, x7, x8]]"
    and "is_solvable [[x0, x1, x2], [x3, x4, x5], [x7, 0, x8]] = is_solvable [[x0, x1, x2], [x3, x4, x5], [0, x7, x8]]"
proof -
  show "result [[x0, x1, x2], [x3, x4, x5], [x7, 0, x8]] ''left'' = Inr [[x0, x1, x2], [x3, x4, x5], [0, x7, x8]]"
    using assms by (simp add: moves_21)
  show "is_solvable [[x0, x1, x2], [x3, x4, x5], [x7, 0, x8]] = is_solvable [[x0, x1, x2], [x3, x4, x5], [0, x7, x8]]"
    using assms by (simp add: is_solvable_inversions tiles_of_def del: inversions.simps)
qed

lemma legal_21_up:
  assumes "distinct [x0, x1, x2, x3, x4, x5, x6, 0, x8]"
  shows "result [[x0, x1, x2], [x3, 0, x5], [x6, x4, x8]] ''down'' = Inr [[x0, x1, x2], [x3, x4, x5], [x6, 0, x8]]"
    and "is_solvable [[x0, x1, x2], [x3, 0, x5], [x6, x4, x8]] = is_solvable [[x0, x1, x2], [x3, x4, x5], [x6, 0, x8]]"
proof -
  show "result [[x0, x1, x2], [x3, 0, x5], [x6, x4, x8]] ''down'' = Inr [[x0, x1, x2], [x3, x4, x5], [x6, 0, x8]]"
    using assms by (simp add: moves_11)
  have "x4 \<noteq> x5" "x4 \<noteq> x6"
    using assms by auto
  from inversions_rotate [OF this, of "[x0, x1, x2, x3]" "[x8]"] assms
  show "is_solvable [[x0, x1, x2], [x3, 0, x5], [x6, x4, x8]] = is_solvable [[x0, x1, x2], [x3, x4, x5], [x6, 0, x8]]"
    by (simp add: is_solvable_inversions tiles_of_def del: inversions.simps)
qed

lemma legal_21_left:
  assumes "distinct [x0, x1, x2, x3, x4, x5, x6, 0, x8]"
  shows "result [[x0, x1, x2], [x3, x4, x5], [0, x6, x8]] ''right'' = Inr [[x0, x1, x2], [x3, x4, x5], [x6, 0, x8]]"
    and "is_solvable [[x0, x1, x2], [x3, x4, x5], [0, x6, x8]] = is_solvable [[x0, x1, x2], [x3, x4, x5], [x6, 0, x8]]"
proof -
  show "result [[x0, x1, x2], [x3, x4, x5], [0, x6, x8]] ''right'' = Inr [[x0, x1, x2], [x3, x4, x5], [x6, 0, x8]]"
    using assms by (simp add: moves_20)
  show "is_solvable [[x0, x1, x2], [x3, x4, x5], [0, x6, x8]] = is_solvable [[x0, x1, x2], [x3, x4, x5], [x6, 0, x8]]"
    using assms by (simp add: is_solvable_inversions tiles_of_def del: inversions.simps)
qed

lemma legal_21_right:
  assumes "distinct [x0, x1, x2, x3, x4, x5, x6, 0, x8]"
  shows "result [[x0, x1, x2], [x3, x4, x5], [x6, x8, 0]] ''left'' = Inr [[x0, x1, x2], [x3, x4, x5], [x6, 0, x8]]"
    and "is_solvable [[x0, x1, x2], [x3, x4, x5], [x6, x8, 0]] = is_solvable [[x0, x1, x2], [x3, x4, x5], [x6, 0, x8]]"
proof -
  show "result [[x0, x1, x2], [x3, x4, x5], [x6, x8, 0]] ''left'' = Inr [[x0, x1, x2], [x3, x4, x5], [x6, 0, x8]]"
    using assms by (simp add: moves_22)
  show "is_solvable [[x0, x1, x2], [x3, x4, x5], [x6, x8, 0]] = is_solvable [[x0, x1, x2], [x3, x4, x5], [x6, 0, x8]]"
    using assms by (simp add: is_solvable_inversions tiles_of_def del: inversions.simps)
qed

lemma legal_22_up:
  assumes "distinct [x0, x1, x2, x3, x4, x5, x6, x7, 0]"
  shows "result [[x0, x1, x2], [x3, x4, 0], [x6, x7, x5]] ''down'' = Inr [[x0, x1, x2], [x3, x4, x5], [x6, x7, 0]]"
    and "is_solvable [[x0, x1, x2], [x3, x4, 0], [x6, x7, x5]] = is_solvable [[x0, x1, x2], [x3, x4, x5], [x6, x7, 0]]"
proof -
  show "result [[x0, x1, x2], [x3, x4, 0], [x6, x7, x5]] ''down'' = Inr [[x0, x1, x2], [x3, x4, x5], [x6, x7, 0]]"
    using assms by (simp add: moves_12)
  have "x5 \<noteq> x6" "x5 \<noteq> x7"
    using assms by auto
  from inversions_rotate [OF this, of "[x0, x1, x2, x3, x4]" "[]"] assms
  show "is_solvable [[x0, x1, x2], [x3, x4, 0], [x6, x7, x5]] = is_solvable [[x0, x1, x2], [x3, x4, x5], [x6, x7, 0]]"
    by (simp add: is_solvable_inversions tiles_of_def del: inversions.simps)
qed

lemma legal_22_left:
  assumes "distinct [x0, x1, x2, x3, x4, x5, x6, x7, 0]"
  shows "result [[x0, x1, x2], [x3, x4, x5], [x6, 0, x7]] ''right'' = Inr [[x0, x1, x2], [x3, x4, x5], [x6, x7, 0]]"
    and "is_solvable [[x0, x1, x2], [x3, x4, x5], [x6, 0, x7]] = is_solvable [[x0, x1, x2], [x3, x4, x5], [x6, x7, 0]]"
proof -
  show "result [[x0, x1, x2], [x3, x4, x5], [x6, 0, x7]] ''right'' = Inr [[x0, x1, x2], [x3, x4, x5], [x6, x7, 0]]"
    using assms by (simp add: moves_21)
  show "is_solvable [[x0, x1, x2], [x3, x4, x5], [x6, 0, x7]] = is_solvable [[x0, x1, x2], [x3, x4, x5], [x6, x7, 0]]"
    using assms by (simp add: is_solvable_inversions tiles_of_def del: inversions.simps)
qed

subsection \<open>Valid states\<close>

lemma length3: "length xs = 3 \<Longrightarrow> \<exists>a b c. xs = [a, b, c]"
  by (auto simp add: eval_nat_numeral length_Suc_conv)

lemma valid_state_grid:
  assumes "valid_state s"
  obtains x0 x1 x2 x3 x4 x5 x6 x7 x8 where
    "s = [[x0, x1, x2], [x3, x4, x5], [x6, x7, x8]]"
    "mset [x0, x1, x2, x3, x4, x5, x6, x7, x8] = mset [0, 1, 2, 3, 4, 5, 6, 7, 8]"
proof -
  from assms have l: "map length s = [3, 3, 3]"
    and m: "mset (concat s) = mset [0, 1, 2, 3, 4, 5, 6, 7, 8]"
    by (simp_all add: valid_state_def)
  from l obtain r0 r1 r2 where s: "s = [r0, r1, r2]" and
    "length r0 = 3" "length r1 = 3" "length r2 = 3"
    by (auto simp add: map_eq_Cons_conv)
  then obtain x0 x1 x2 x3 x4 x5 x6 x7 x8 where
    "r0 = [x0, x1, x2]" "r1 = [x3, x4, x5]" "r2 = [x6, x7, x8]"
    using length3 [of r0] length3 [of r1] length3 [of r2] by auto
  with s m show thesis by (intro that [of x0 x1 x2 x3 x4 x5 x6 x7 x8]) simp_all
qed

lemma valid_state_cases [consumes 1, case_names b00 b01 b02 b10 b11 b12 b20 b21 b22]:
  assumes "valid_state s"
  obtains (b00) x1 x2 x3 x4 x5 x6 x7 x8 where
      "s = [[0, x1, x2], [x3, x4, x5], [x6, x7, x8]]"
      "distinct [0, x1, x2, x3, x4, x5, x6, x7, x8]"
  | (b01) x0 x2 x3 x4 x5 x6 x7 x8 where
      "s = [[x0, 0, x2], [x3, x4, x5], [x6, x7, x8]]"
      "distinct [x0, 0, x2, x3, x4, x5, x6, x7, x8]"
  | (b02) x0 x1 x3 x4 x5 x6 x7 x8 where
      "s = [[x0, x1, 0], [x3, x4, x5], [x6, x7, x8]]"
      "distinct [x0, x1, 0, x3, x4, x5, x6, x7, x8]"
  | (b10) x0 x1 x2 x4 x5 x6 x7 x8 where
      "s = [[x0, x1, x2], [0, x4, x5], [x6, x7, x8]]"
      "distinct [x0, x1, x2, 0, x4, x5, x6, x7, x8]"
  | (b11) x0 x1 x2 x3 x5 x6 x7 x8 where
      "s = [[x0, x1, x2], [x3, 0, x5], [x6, x7, x8]]"
      "distinct [x0, x1, x2, x3, 0, x5, x6, x7, x8]"
  | (b12) x0 x1 x2 x3 x4 x6 x7 x8 where
      "s = [[x0, x1, x2], [x3, x4, 0], [x6, x7, x8]]"
      "distinct [x0, x1, x2, x3, x4, 0, x6, x7, x8]"
  | (b20) x0 x1 x2 x3 x4 x5 x7 x8 where
      "s = [[x0, x1, x2], [x3, x4, x5], [0, x7, x8]]"
      "distinct [x0, x1, x2, x3, x4, x5, 0, x7, x8]"
  | (b21) x0 x1 x2 x3 x4 x5 x6 x8 where
      "s = [[x0, x1, x2], [x3, x4, x5], [x6, 0, x8]]"
      "distinct [x0, x1, x2, x3, x4, x5, x6, 0, x8]"
  | (b22) x0 x1 x2 x3 x4 x5 x6 x7 where
      "s = [[x0, x1, x2], [x3, x4, x5], [x6, x7, 0]]"
      "distinct [x0, x1, x2, x3, x4, x5, x6, x7, 0]"
proof -
  from assms obtain x0 x1 x2 x3 x4 x5 x6 x7 x8 where
    s: "s = [[x0, x1, x2], [x3, x4, x5], [x6, x7, x8]]" and
    m: "mset [x0, x1, x2, x3, x4, x5, x6, x7, x8] = mset [0, 1, 2, 3, 4, 5, 6, 7, 8]"
    by (rule valid_state_grid) 
  from m have d: "distinct [x0, x1, x2, x3, x4, x5, x6, x7, x8]"
    using mset_eq_imp_distinct_iff [OF m] by simp
  from m have "0 \<in> set [x0, x1, x2, x3, x4, x5, x6, x7, x8]"
    using mset_eq_setD [OF m] by simp
  then consider "x0 = 0" | "x1 = 0" | "x2 = 0" | "x3 = 0" | "x4 = 0" | "x5 = 0" | "x6 = 0"
    | "x7 = 0" | "x8 = 0"
    by auto
  then show thesis
  proof cases
    case 1
    show thesis by (rule b00) (use s d 1 in simp_all)
  next
    case 2
    show thesis by (rule b01) (use s d 2 in simp_all)
  next
    case 3
    show thesis by (rule b02) (use s d 3 in simp_all)
  next
    case 4
    show thesis by (rule b10) (use s d 4 in simp_all)
  next
    case 5
    show thesis by (rule b11) (use s d 5 in simp_all)
  next
    case 6
    show thesis by (rule b12) (use s d 6 in simp_all)
  next
    case 7
    show thesis by (rule b20) (use s d 7 in simp_all)
  next
    case 8
    show thesis by (rule b21) (use s d 8 in simp_all)
  next
    case 9
    show thesis by (rule b22) (use s d 9 in simp_all)
  qed
qed

lemma valid_operators:
  assumes "valid_state s"
  shows "\<exists>oprs. operators s = Inr oprs \<and> set oprs \<subseteq> {''up'', ''down'', ''left'', ''right''}"
  using assms
proof (cases rule: valid_state_cases)
  case (b00 x1 x2 x3 x4 x5 x6 x7 x8)
  then show ?thesis
    by (simp add: moves_00)
next
  case (b01 x0 x2 x3 x4 x5 x6 x7 x8)
  then show ?thesis
    by (simp add: moves_01)
next
  case (b02 x0 x1 x3 x4 x5 x6 x7 x8)
  then show ?thesis
    by (simp add: moves_02)
next
  case (b10 x0 x1 x2 x4 x5 x6 x7 x8)
  then show ?thesis
    by (simp add: moves_10)
next
  case (b11 x0 x1 x2 x3 x5 x6 x7 x8)
  then show ?thesis
    by (simp add: moves_11)
next
  case (b12 x0 x1 x2 x3 x4 x6 x7 x8)
  then show ?thesis
    by (simp add: moves_12)
next
  case (b20 x0 x1 x2 x3 x4 x5 x7 x8)
  then show ?thesis
    by (simp add: moves_20)
next
  case (b21 x0 x1 x2 x3 x4 x5 x6 x8)
  then show ?thesis
    by (simp add: moves_21)
next
  case (b22 x0 x1 x2 x3 x4 x5 x6 x7)
  then show ?thesis
    by (simp add: moves_22)
qed

lemma result_mset:
  assumes "valid_state s" and "opr \<in> {''up'', ''down'', ''left'', ''right''}"
    and "result s opr = Inr s'"
  shows "map length s' = [3, 3, 3] \<and> mset (concat s') = mset (concat s)"
  using assms
proof (cases rule: valid_state_cases)
  case (b00 x1 x2 x3 x4 x5 x6 x7 x8)
  then show ?thesis
    using assms(2,3) by (auto simp add: moves_00)
next
  case (b01 x0 x2 x3 x4 x5 x6 x7 x8)
  then show ?thesis
    using assms(2,3) by (auto simp add: moves_01)
next
  case (b02 x0 x1 x3 x4 x5 x6 x7 x8)
  then show ?thesis
    using assms(2,3) by (auto simp add: moves_02)
next
  case (b10 x0 x1 x2 x4 x5 x6 x7 x8)
  then show ?thesis
    using assms(2,3) by (auto simp add: moves_10)
next
  case (b11 x0 x1 x2 x3 x5 x6 x7 x8)
  then show ?thesis
    using assms(2,3) by (auto simp add: moves_11)
next
  case (b12 x0 x1 x2 x3 x4 x6 x7 x8)
  then show ?thesis
    using assms(2,3) by (auto simp add: moves_12)
next
  case (b20 x0 x1 x2 x3 x4 x5 x7 x8)
  then show ?thesis
    using assms(2,3) by (auto simp add: moves_20)
next
  case (b21 x0 x1 x2 x3 x4 x5 x6 x8)
  then show ?thesis
    using assms(2,3) by (auto simp add: moves_21)
next
  case (b22 x0 x1 x2 x3 x4 x5 x6 x7)
  then show ?thesis
    using assms(2,3) by (auto simp add: moves_22)
qed

lemma valid_result:
  assumes "valid_state s" and "opr \<in> {''up'', ''down'', ''left'', ''right''}"
    and "result s opr = Inr s'"
  shows "valid_state s'"
  using result_mset [OF assms] assms(1) by (simp add: valid_state_def)

lemma legal_result:
  assumes "valid_state s" and "operators s = Inr oprs" and "opr \<in> set oprs"
  shows "\<exists>s'. result s opr = Inr s' \<and> result s' (inverse_op opr) = Inr s \<and>
              is_solvable s' = is_solvable s"
  using assms
proof (cases rule: valid_state_cases)
  case (b00 x1 x2 x3 x4 x5 x6 x7 x8)
  show ?thesis
    proof -
      from assms(2) b00 have "oprs = [''down'', ''right'']" by (simp add: moves_00)
      with assms(3) have "opr = ''down'' \<or> opr = ''right''" by auto
      then show ?thesis
        using b00 legal_00_down [OF b00(2)] legal_00_right [OF b00(2)]
        by (auto simp add: moves_00 inverse_op_def)
    qed
next
  case (b01 x0 x2 x3 x4 x5 x6 x7 x8)
  show ?thesis
    proof -
      from assms(2) b01 have "oprs = [''down'', ''left'', ''right'']" by (simp add: moves_01)
      with assms(3) have "opr = ''down'' \<or> opr = ''left'' \<or> opr = ''right''" by auto
      then show ?thesis
        using b01 legal_01_down [OF b01(2)] legal_01_left [OF b01(2)] legal_01_right [OF b01(2)]
        by (auto simp add: moves_01 inverse_op_def)
    qed
next
  case (b02 x0 x1 x3 x4 x5 x6 x7 x8)
  show ?thesis
    proof -
      from assms(2) b02 have "oprs = [''down'', ''left'']" by (simp add: moves_02)
      with assms(3) have "opr = ''down'' \<or> opr = ''left''" by auto
      then show ?thesis
        using b02 legal_02_down [OF b02(2)] legal_02_left [OF b02(2)]
        by (auto simp add: moves_02 inverse_op_def)
    qed
next
  case (b10 x0 x1 x2 x4 x5 x6 x7 x8)
  show ?thesis
    proof -
      from assms(2) b10 have "oprs = [''up'', ''down'', ''right'']" by (simp add: moves_10)
      with assms(3) have "opr = ''up'' \<or> opr = ''down'' \<or> opr = ''right''" by auto
      then show ?thesis
        using b10 legal_10_up [OF b10(2)] legal_10_down [OF b10(2)] legal_10_right [OF b10(2)]
        by (auto simp add: moves_10 inverse_op_def)
    qed
next
  case (b11 x0 x1 x2 x3 x5 x6 x7 x8)
  show ?thesis
    proof -
      from assms(2) b11 have "oprs = [''up'', ''down'', ''left'', ''right'']" by (simp add: moves_11)
      with assms(3) have "opr = ''up'' \<or> opr = ''down'' \<or> opr = ''left'' \<or> opr = ''right''" by auto
      then show ?thesis
        using b11 legal_11_up [OF b11(2)] legal_11_down [OF b11(2)] legal_11_left [OF b11(2)] legal_11_right [OF b11(2)]
        by (auto simp add: moves_11 inverse_op_def)
    qed
next
  case (b12 x0 x1 x2 x3 x4 x6 x7 x8)
  show ?thesis
    proof -
      from assms(2) b12 have "oprs = [''up'', ''down'', ''left'']" by (simp add: moves_12)
      with assms(3) have "opr = ''up'' \<or> opr = ''down'' \<or> opr = ''left''" by auto
      then show ?thesis
        using b12 legal_12_up [OF b12(2)] legal_12_down [OF b12(2)] legal_12_left [OF b12(2)]
        by (auto simp add: moves_12 inverse_op_def)
    qed
next
  case (b20 x0 x1 x2 x3 x4 x5 x7 x8)
  show ?thesis
    proof -
      from assms(2) b20 have "oprs = [''up'', ''right'']" by (simp add: moves_20)
      with assms(3) have "opr = ''up'' \<or> opr = ''right''" by auto
      then show ?thesis
        using b20 legal_20_up [OF b20(2)] legal_20_right [OF b20(2)]
        by (auto simp add: moves_20 inverse_op_def)
    qed
next
  case (b21 x0 x1 x2 x3 x4 x5 x6 x8)
  show ?thesis
    proof -
      from assms(2) b21 have "oprs = [''up'', ''left'', ''right'']" by (simp add: moves_21)
      with assms(3) have "opr = ''up'' \<or> opr = ''left'' \<or> opr = ''right''" by auto
      then show ?thesis
        using b21 legal_21_up [OF b21(2)] legal_21_left [OF b21(2)] legal_21_right [OF b21(2)]
        by (auto simp add: moves_21 inverse_op_def)
    qed
next
  case (b22 x0 x1 x2 x3 x4 x5 x6 x7)
  show ?thesis
    proof -
      from assms(2) b22 have "oprs = [''up'', ''left'']" by (simp add: moves_22)
      with assms(3) have "opr = ''up'' \<or> opr = ''left''" by auto
      then show ?thesis
        using b22 legal_22_up [OF b22(2)] legal_22_left [OF b22(2)]
        by (auto simp add: moves_22 inverse_op_def)
    qed
qed

lemma illegal_result:
  assumes "valid_state s" and "operators s = Inr oprs" and "opr \<notin> set oprs"
  shows "(opr = ''up'' \<or> opr = ''left'' \<longrightarrow> (\<exists>s'. result s opr = Inr s')) \<and>
         (opr = ''down'' \<or> opr = ''right'' \<longrightarrow> result s opr = Inl IndexError)"
  using assms
proof (cases rule: valid_state_cases)
  case (b00 x1 x2 x3 x4 x5 x6 x7 x8)
  show ?thesis
    proof -
      from assms(2) b00 have "oprs = [''down'', ''right'']" by (simp add: moves_00)
      with assms(3) show ?thesis
        using b00 by (auto simp add: moves_00)
    qed
next
  case (b01 x0 x2 x3 x4 x5 x6 x7 x8)
  show ?thesis
    proof -
      from assms(2) b01 have "oprs = [''down'', ''left'', ''right'']" by (simp add: moves_01)
      with assms(3) show ?thesis
        using b01 by (auto simp add: moves_01)
    qed
next
  case (b02 x0 x1 x3 x4 x5 x6 x7 x8)
  show ?thesis
    proof -
      from assms(2) b02 have "oprs = [''down'', ''left'']" by (simp add: moves_02)
      with assms(3) show ?thesis
        using b02 by (auto simp add: moves_02)
    qed
next
  case (b10 x0 x1 x2 x4 x5 x6 x7 x8)
  show ?thesis
    proof -
      from assms(2) b10 have "oprs = [''up'', ''down'', ''right'']" by (simp add: moves_10)
      with assms(3) show ?thesis
        using b10 by (auto simp add: moves_10)
    qed
next
  case (b11 x0 x1 x2 x3 x5 x6 x7 x8)
  show ?thesis
    proof -
      from assms(2) b11 have "oprs = [''up'', ''down'', ''left'', ''right'']" by (simp add: moves_11)
      with assms(3) show ?thesis
        using b11 by (auto simp add: moves_11)
    qed
next
  case (b12 x0 x1 x2 x3 x4 x6 x7 x8)
  show ?thesis
    proof -
      from assms(2) b12 have "oprs = [''up'', ''down'', ''left'']" by (simp add: moves_12)
      with assms(3) show ?thesis
        using b12 by (auto simp add: moves_12)
    qed
next
  case (b20 x0 x1 x2 x3 x4 x5 x7 x8)
  show ?thesis
    proof -
      from assms(2) b20 have "oprs = [''up'', ''right'']" by (simp add: moves_20)
      with assms(3) show ?thesis
        using b20 by (auto simp add: moves_20)
    qed
next
  case (b21 x0 x1 x2 x3 x4 x5 x6 x8)
  show ?thesis
    proof -
      from assms(2) b21 have "oprs = [''up'', ''left'', ''right'']" by (simp add: moves_21)
      with assms(3) show ?thesis
        using b21 by (auto simp add: moves_21)
    qed
next
  case (b22 x0 x1 x2 x3 x4 x5 x6 x7)
  show ?thesis
    proof -
      from assms(2) b22 have "oprs = [''up'', ''left'']" by (simp add: moves_22)
      with assms(3) show ?thesis
        using b22 by (auto simp add: moves_22)
    qed
qed

lemma reachable_valid:
  assumes "valid_state s0" and "s \<in> reachable s0"
  shows "valid_state s \<and> is_solvable s = is_solvable s0"
  using assms(2)
proof (induction rule: reachable.induct)
  case start
  show ?case using assms(1) by simp
next
  case (move s oprs opr s')
  then have v: "valid_state s" and p: "is_solvable s = is_solvable s0" by simp_all
  from valid_operators [OF v] move.hyps(2,3)
  have o: "opr \<in> {''up'', ''down'', ''left'', ''right''}" by auto
  from valid_result [OF v o move.hyps(4)] have "valid_state s'" .
  moreover from legal_result [OF v move.hyps(2,3)] move.hyps(4) p
  have "is_solvable s' = is_solvable s0" by auto
  ultimately show ?case by simp
qed

subsection \<open>heappop\<close>

lemma entry_less_trans: "entry_less x y \<Longrightarrow> entry_less y z \<Longrightarrow> entry_less x z"
  by (auto simp add: entry_less_def)

lemma entry_less_below: "entry_less x z \<Longrightarrow> \<not> entry_less y z \<Longrightarrow> entry_less x y"
  by (auto simp add: entry_less_def)

lemma least_entry_mem: "least_entry m xs \<in> set (m # xs)"
  by (induction xs arbitrary: m) auto

lemma least_entry_least: "x \<in> set (m # xs) \<Longrightarrow> \<not> entry_less x (least_entry m xs)"
proof (induction xs arbitrary: m x)
  case Nil
  then show ?case by (simp add: entry_less_def)
next
  case (Cons y ys)
  let ?m' = "if entry_less y m then y else m"
  have l: "least_entry m (y # ys) = least_entry ?m' ys" by simp
  have m': "\<not> entry_less ?m' (least_entry ?m' ys)"
    by (rule Cons.IH) simp
  show ?case
  proof (cases "x \<in> set ys")
    case True
    then show ?thesis unfolding l by (intro Cons.IH) simp
  next
    case False
    with Cons.prems have x: "x = m \<or> x = y" by auto
    show ?thesis
    proof (cases "entry_less y m")
      case True
      with m' have "\<not> entry_less y (least_entry y ys)" by simp
      moreover from this True have "\<not> entry_less m (least_entry y ys)"
        using entry_less_trans by blast
      ultimately show ?thesis using x True by auto
    next
      case False
      with m' have "\<not> entry_less m (least_entry m ys)" by simp
      moreover from this False have "\<not> entry_less y (least_entry m ys)"
        using entry_less_below by blast
      ultimately show ?thesis using x False by auto
    qed
  qed
qed

lemma heappop_some:
  assumes "fr \<noteq> []"
  obtains m where "heappop fr = Inr (m, remove1 m fr)" "m \<in> set fr"
    "\<forall>x\<in>set fr. \<not> entry_less x m"
proof -
  from assms obtain x xs where fr: "fr = x # xs" by (cases fr) auto
  show thesis
  proof (rule that [of "least_entry x xs"])
    show "heappop fr = Inr (least_entry x xs, remove1 (least_entry x xs) fr)"
      unfolding fr by (simp add: Let_def)
    show "least_entry x xs \<in> set fr" unfolding fr by (rule least_entry_mem)
    show "\<forall>x'\<in>set fr. \<not> entry_less x' (least_entry x xs)"
      unfolding fr using least_entry_least by blast
  qed
qed

subsection \<open>Heuristics and moves on valid states\<close>

lemma valid_examples:
  "valid_state goal_grid" "valid_state easy_state" "valid_state corner_state"
  "valid_state swapped_state"
  by (simp_all add: valid_state_def goal_grid_def easy_state_def corner_state_def
        swapped_state_def)

lemma for_cells_grid:
  "\<exists>r. for_cells body [[x0, x1, x2], [x3, x4, x5], [x6, x7, x8]] grid_indices acc = Inr r"
  by (simp add: grid_indices_def cell_def py_getitem_def)

lemma for_cells_valid:
  assumes "valid_state s"
  shows "\<exists>r. for_cells body s grid_indices acc = Inr r"
  using assms for_cells_grid by (auto elim!: valid_state_grid)

lemma for_cells_nonneg:
  assumes "\<And>i j v a. (0::'a::linordered_idom) \<le> a \<Longrightarrow> 0 \<le> body i j v a"
    and "0 \<le> acc" and "for_cells body s ps acc = Inr r"
  shows "0 \<le> r"
  using assms(2,3)
proof (induction ps arbitrary: acc)
  case Nil
  then show ?case by simp
next
  case (Cons p ps)
  obtain i j where p: "p = (i, j)" by (cases p)
  from Cons.prems(2) obtain v where v: "cell s i j = Inr v"
    and r: "for_cells body s ps (body i j v acc) = Inr r"
    unfolding p by (auto split: sum.splits)
  from Cons.prems(1) have "0 \<le> body i j v acc" by (rule assms(1))
  then show ?case using r by (rule Cons.IH)
qed

lemma misplaced_tile_nonneg:
  assumes "valid_state s"
  shows "\<exists>v. misplaced_tile s = Inr (PyInt v) \<and> 0 \<le> v"
proof -
  let ?body = "\<lambda>i j v (count::int).
     if v \<noteq> 0 \<and> v \<noteq> [[1, 2, 3], [4, 5, 6], [7, 8, 0]] ! nat i ! nat j then count + 1 else count"
  from for_cells_valid [OF assms, of ?body 0] obtain r where r: "for_cells ?body s grid_indices 0 = Inr r"
    by blast
  then have "0 \<le> r" by (intro for_cells_nonneg [of ?body 0 s grid_indices r]) simp_all
  with r show ?thesis by (simp add: misplaced_tile_def)
qed

lemma manhattan_distance_nonneg:
  assumes "valid_state s"
  shows "\<exists>v. manhattan_distance s = Inr (PyInt v) \<and> 0 \<le> v"
proof -
  let ?body = "\<lambda>i j val (distance::int).
     if val \<noteq> 0 then
       (let goal_i = (val - 1) div 3; goal_j = (val - 1) mod 3
        in distance + (\<bar>i - goal_i\<bar> + \<bar>j - goal_j\<bar>))
     else distance"
  from for_cells_valid [OF assms, of ?body 0] obtain r where r: "for_cells ?body s grid_indices 0 = Inr r"
    by blast
  then have "0 \<le> r"
    by (intro for_cells_nonneg [of ?body 0 s grid_indices r]) (simp_all add: Let_def)
  with r show ?thesis by (simp add: manhattan_distance_def)
qed

lemma square_distance_small:
  fixes i j v :: int
  assumes "0 \<le> i" "i \<le> 2" "0 \<le> j" "j \<le> 2" "1 \<le> v" "v \<le> 8"
  shows "0 \<le> (i - (v - 1) div 3)\<^sup>2 + (j - (v - 1) mod 3)\<^sup>2"
    and "(i - (v - 1) div 3)\<^sup>2 + (j - (v - 1) mod 3)\<^sup>2 < 2 ^ 53"
proof -
  show "0 \<le> (i - (v - 1) div 3)\<^sup>2 + (j - (v - 1) mod 3)\<^sup>2" by simp
  from assms have "0 \<le> (v - 1) div 3" "(v - 1) div 3 \<le> 2" by simp_all
  with assms have "\<bar>i - (v - 1) div 3\<bar> \<le> \<bar>2\<bar>" by simp
  then have "(i - (v - 1) div 3)\<^sup>2 \<le> 2\<^sup>2" by (simp only: abs_le_square_iff)
  moreover from assms have "\<bar>j - (v - 1) mod 3\<bar> \<le> \<bar>2\<bar>" by simp
  then have "(j - (v - 1) mod 3)\<^sup>2 \<le> 2\<^sup>2" by (simp only: abs_le_square_iff)
  ultimately show "(i - (v - 1) div 3)\<^sup>2 + (j - (v - 1) mod 3)\<^sup>2 < 2 ^ 53" by simp
qed

lemma euclidean_loop_nonneg:
  assumes "\<forall>(i, j)\<in>set ps. 0 \<le> i \<and> i \<le> 2 \<and> 0 \<le> j \<and> j \<le> 2 \<and>
             (\<exists>v. cell s i j = Inr v \<and> 0 \<le> v \<and> v \<le> 8)"
    and "0 \<le> d"
  shows "\<exists>r. euclidean_loop s ps d = Inr r \<and> 0 \<le> r"
  using assms
proof (induction ps arbitrary: d)
  case Nil
  then show ?case by simp
next
  case (Cons p ps)
  obtain i j where p: "p = (i, j)" by (cases p)
  from Cons.prems(1) p obtain v where
    ij: "0 \<le> i" "i \<le> 2" "0 \<le> j" "j \<le> 2" and c: "cell s i j = Inr v" and v: "0 \<le> v" "v \<le> 8"
    by auto
  from Cons.prems(1) have rest: "\<forall>(i, j)\<in>set ps. 0 \<le> i \<and> i \<le> 2 \<and> 0 \<le> j \<and> j \<le> 2 \<and>
             (\<exists>v. cell s i j = Inr v \<and> 0 \<le> v \<and> v \<le> 8)"
    by simp
  show ?case
  proof (cases "v = 0")
    case True
    with c p Cons.IH [OF rest Cons.prems(2)] show ?thesis by simp
  next
    case False
    with v have "1 \<le> v" by simp
    note k = square_distance_small [OF ij this v(2)]
    let ?k = "(i - (v - 1) div 3)\<^sup>2 + (j - (v - 1) mod 3)\<^sup>2"
    from math_sqrt_small [OF k] obtain rt where rt: "math_sqrt ?k = Inr rt" by blast
    from math_sqrt_nonneg [OF rt] Cons.prems(2) have "0 \<le> float_add d rt"
      by (simp add: float_add_def round_double_nonneg)
    from Cons.IH [OF rest this] c p False rt show ?thesis by (simp add: Let_def)
  qed
qed

lemma grid_cells_small:
  assumes "valid_state s"
  shows "\<forall>(i, j)\<in>set grid_indices. 0 \<le> i \<and> i \<le> 2 \<and> 0 \<le> j \<and> j \<le> 2 \<and>
             (\<exists>v. cell s i j = Inr v \<and> 0 \<le> v \<and> v \<le> 8)"
proof -
  from assms obtain x0 x1 x2 x3 x4 x5 x6 x7 x8 where
    s: "s = [[x0, x1, x2], [x3, x4, x5], [x6, x7, x8]]" and
    m: "mset [x0, x1, x2, x3, x4, x5, x6, x7, x8] = mset [0, 1, 2, 3, 4, 5, 6, 7, 8]"
    by (rule valid_state_grid)
  from mset_eq_setD [OF m] have "set [x0, x1, x2, x3, x4, x5, x6, x7, x8] \<subseteq> {0..8}"
    by simp
  then have "0 \<le> x0 \<and> x0 \<le> 8" "0 \<le> x1 \<and> x1 \<le> 8" "0 \<le> x2 \<and> x2 \<le> 8"
    "0 \<le> x3 \<and> x3 \<le> 8" "0 \<le> x4 \<and> x4 \<le> 8" "0 \<le> x5 \<and> x5 \<le> 8"
    "0 \<le> x6 \<and> x6 \<le> 8" "0 \<le> x7 \<and> x7 \<le> 8" "0 \<le> x8 \<and> x8 \<le> 8"
    by simp_all
  then show ?thesis
    unfolding s by (simp add: grid_indices_def cell_def py_getitem_def)
qed

lemma euclidean_distance_nonneg:
  assumes "valid_state s"
  shows "\<exists>d. euclidean_distance s = Inr (PyFloat d) \<and> 0 \<le> d"
proof -
  from euclidean_loop_nonneg [OF grid_cells_small [OF assms], of 0]
  obtain r where "euclidean_loop s grid_indices 0 = Inr r" "0 \<le> r" by auto
  then show ?thesis by (simp add: euclidean_distance_def)
qed

lemma heuristics_goal:
  "uniform_cost goal_grid = Inr (PyInt 0)" "misplaced_tile goal_grid = Inr (PyInt 0)"
  "manhattan_distance goal_grid = Inr (PyInt 0)" "euclidean_distance goal_grid = Inr (PyFloat 0)"
  by (simp_all add: uniform_cost_def misplaced_tile_def manhattan_distance_def
        euclidean_distance_def goal_grid_def grid_indices_def cell_def py_getitem_def
        float_add_def round_double_numeral float_ops_small)

lemma heuristics_easy:
  "misplaced_tile easy_state = Inr (PyInt 1)" "manhattan_distance easy_state = Inr (PyInt 1)"
  "euclidean_distance easy_state = Inr (PyFloat 1)"
  by (simp_all add: misplaced_tile_def manhattan_distance_def
        euclidean_distance_def easy_state_def grid_indices_def cell_def py_getitem_def
        float_add_def round_double_numeral float_ops_small)

text \<open>
  C7. On every valid state each of the four heuristics returns a number and that number
  is not negative; on the goal grid each returns exactly 0, the Euclidean distance the
  double \<^verbatim>\<open>0.0\<close>. The Euclidean distance is the sum in doubles, rounded at every
  root and every addition.
\<close>

theorem C7_heuristics:
  "(valid_state s \<longrightarrow>
      (\<exists>v. uniform_cost s = Inr (PyInt v) \<and> 0 \<le> v) \<and>
      (\<exists>v. misplaced_tile s = Inr (PyInt v) \<and> 0 \<le> v) \<and>
      (\<exists>v. manhattan_distance s = Inr (PyInt v) \<and> 0 \<le> v) \<and>
      (\<exists>d. euclidean_distance s = Inr (PyFloat d) \<and> 0 \<le> d)) \<and>
   uniform_cost goal_grid = Inr (PyInt 0) \<and>
   misplaced_tile goal_grid = Inr (PyInt 0) \<and>
   manhattan_distance goal_grid = Inr (PyInt 0) \<and>
   euclidean_distance goal_grid = Inr (PyFloat 0)"
  using misplaced_tile_nonneg manhattan_distance_nonneg euclidean_distance_nonneg heuristics_goal
  by (simp add: uniform_cost_def)

text \<open>The state \<open>[[1,2,3],[4,5,6],[7,0,8]]\<close> is valid, so C7 applies to it.\<close>

theorem C7_heuristics_witness:
  "valid_state easy_state \<and>
   misplaced_tile easy_state = Inr (PyInt 1) \<and>
   manhattan_distance easy_state = Inr (PyInt 1) \<and>
   euclidean_distance easy_state = Inr (PyFloat 1) \<and>
   (\<exists>d. euclidean_distance easy_state = Inr (PyFloat d) \<and> 0 \<le> d)"
  using C7_heuristics [of easy_state] valid_examples(2) heuristics_easy by simp

text \<open>
  C8. For a valid state \<open>s\<close>, \<open>operators\<close> returns a list of moves, and for each
  move \<open>m\<close> of that list \<open>result\<close> returns a state from which the inverse move
  leads back to \<open>s\<close>.
\<close>

theorem C8_move_then_inverse:
  assumes "valid_state s"
  shows "\<exists>oprs. operators s = Inr oprs \<and>
           (\<forall>m\<in>set oprs. \<exists>s'. result s m = Inr s' \<and> result s' (inverse_op m) = Inr s)"
proof -
  from valid_operators [OF assms] obtain oprs where o: "operators s = Inr oprs"
    by (elim exE conjE)
  have "\<exists>s'. result s m = Inr s' \<and> result s' (inverse_op m) = Inr s" if "m \<in> set oprs" for m
    using legal_result [OF assms o that] by (elim exE conjE) (intro exI conjI)
  then have "\<forall>m\<in>set oprs. \<exists>s'. result s m = Inr s' \<and> result s' (inverse_op m) = Inr s" ..
  with o show ?thesis by (intro exI conjI)
qed

text \<open>C8 at \<open>[[1,2,3],[4,5,6],[7,0,8]]\<close> and the move \<open>right\<close>.\<close>

theorem C8_move_then_inverse_witness:
  "valid_state easy_state \<and> operators easy_state = Inr [''up'', ''left'', ''right''] \<and>
   result easy_state ''right'' = Inr goal_grid \<and>
   result goal_grid (inverse_op ''right'') = Inr easy_state"
proof -
  have o: "operators easy_state = Inr [''up'', ''left'', ''right'']"
    and r: "result easy_state ''right'' = Inr goal_grid"
    by (simp_all add: easy_state_def goal_grid_def eval_defs)
  from C8_move_then_inverse [OF valid_examples(2)] o r
  have "result goal_grid (inverse_op ''right'') = Inr easy_state" by auto
  with o r valid_examples(2) show ?thesis by simp
qed

lemma illegal_up_left:
  assumes "valid_state s" and "operators s = Inr oprs" and "opr \<notin> set oprs"
    and "opr = ''up'' \<or> opr = ''left''"
  shows "\<exists>s'. result s opr = Inr s'"
  using illegal_result [OF assms(1-3)] assms(4) by simp

lemma illegal_down_right:
  assumes "valid_state s" and "operators s = Inr oprs" and "opr \<notin> set oprs"
    and "opr = ''down'' \<or> opr = ''right''"
  shows "result s opr = Inl IndexError"
  using illegal_result [OF assms(1-3)] assms(4) by simp

text \<open>
  C9, as the code has it. For a valid state and an operator among \<open>up\<close>,
  \<open>down\<close>, \<open>left\<close>, \<open>right\<close>: an operator that \<open>operators\<close> offers
  gives a valid state; \<open>up\<close> with the blank in the top row and \<open>left\<close> with the
  blank in the left column are not offered but still give a valid state (the index
  \<open>-1\<close> reads and writes the last row or column); \<open>down\<close> with the blank in the
  bottom row and \<open>right\<close> with the blank in the right column raise
  \<^verbatim>\<open>IndexError\<close> and give no state.
\<close>

theorem C9_result_keeps_valid:
  assumes "valid_state s" and "opr \<in> {''up'', ''down'', ''left'', ''right''}"
    and "operators s = Inr oprs"
  shows "(opr \<in> set oprs \<or> opr = ''up'' \<or> opr = ''left'' \<longrightarrow>
            (\<exists>s'. result s opr = Inr s' \<and> valid_state s')) \<and>
         (opr \<notin> set oprs \<and> (opr = ''down'' \<or> opr = ''right'') \<longrightarrow>
            result s opr = Inl IndexError)"
proof (intro conjI impI)
  assume a: "opr \<in> set oprs \<or> opr = ''up'' \<or> opr = ''left''"
  have "\<exists>s'. result s opr = Inr s'"
  proof (cases "opr \<in> set oprs")
    case True
    from legal_result [OF assms(1,3) True] show ?thesis by (elim exE conjE) (rule exI)
  next
    case False
    with a have "opr = ''up'' \<or> opr = ''left''" by simp
    with assms(1,3) False show ?thesis by (rule illegal_up_left)
  qed
  then obtain s' where r: "result s opr = Inr s'" ..
  from assms(1,2) r have "valid_state s'" by (rule valid_result)
  with r show "\<exists>s'. result s opr = Inr s' \<and> valid_state s'" by (intro exI conjI)
next
  assume "opr \<notin> set oprs \<and> (opr = ''down'' \<or> opr = ''right'')"
  then have "opr \<notin> set oprs" and "opr = ''down'' \<or> opr = ''right''" by simp_all
  with assms(1,3) show "result s opr = Inl IndexError" by (rule illegal_down_right)
qed

text \<open>C9 at the goal grid, whose blank is in the bottom right corner.\<close>

theorem C9_result_keeps_valid_witness:
  "valid_state goal_grid \<and> operators goal_grid = Inr [''up'', ''left''] \<and>
   (\<exists>s'. result goal_grid ''up'' = Inr s' \<and> valid_state s') \<and>
   result goal_grid ''down'' = Inl IndexError"
proof -
  have o: "operators goal_grid = Inr [''up'', ''left'']"
    by (simp add: goal_grid_def eval_defs)
  have u: "''up'' \<in> {''up'', ''down'', ''left'', ''right''}"
    and d: "''down'' \<in> {''up'', ''down'', ''left'', ''right''}" by simp_all
  from C9_result_keeps_valid [OF valid_examples(1) u o]
  have "\<exists>s'. result goal_grid ''up'' = Inr s' \<and> valid_state s'" by simp
  moreover from C9_result_keeps_valid [OF valid_examples(1) d o]
  have "result goal_grid ''down'' = Inl IndexError" by simp
  ultimately show ?thesis using o valid_examples(1) by simp
qed

text \<open>
  C9, as stated, fails: the goal grid is valid, \<open>down\<close> is one of the four operators,
  and \<open>result\<close> raises \<^verbatim>\<open>IndexError\<close> instead of returning a grid.
\<close>

theorem C9_down_in_bottom_row_raises:
  "valid_state goal_grid \<and> result goal_grid ''down'' = Inl IndexError"
  using valid_examples(1) by (simp add: goal_grid_def eval_defs)

subsection \<open>Counting the valid states\<close>

lemma valid_states_image:
  "{s. valid_state s} \<subseteq>
     (\<lambda>xs. [take 3 xs, take 3 (drop 3 xs), drop 6 xs]) `
       {xs::int list. length xs = 9 \<and> distinct xs \<and> set xs \<subseteq> {0..8}}"
proof
  fix s assume "s \<in> {s. valid_state s}"
  then have "valid_state s" by simp
  then obtain x0 x1 x2 x3 x4 x5 x6 x7 x8 where
    s: "s = [[x0, x1, x2], [x3, x4, x5], [x6, x7, x8]]" and
    m: "mset [x0, x1, x2, x3, x4, x5, x6, x7, x8] = mset [0, 1, 2, 3, 4, 5, 6, 7, 8]"
    by (rule valid_state_grid)
  let ?xs = "[x0, x1, x2, x3, x4, x5, x6, x7, x8]"
  have "distinct ?xs" using mset_eq_imp_distinct_iff [OF m] by simp
  moreover have "set ?xs \<subseteq> {0..8}" using mset_eq_setD [OF m] by simp
  moreover have "length ?xs = 9" by simp
  moreover have "s = [take 3 ?xs, take 3 (drop 3 ?xs), drop 6 ?xs]" using s by simp
  ultimately show "s \<in> (\<lambda>xs. [take 3 xs, take 3 (drop 3 xs), drop 6 xs]) `
       {xs::int list. length xs = 9 \<and> distinct xs \<and> set xs \<subseteq> {0..8}}"
    by blast
qed

lemma card_arrangements:
  "card {xs::int list. length xs = 9 \<and> distinct xs \<and> set xs \<subseteq> {0..8}} = 362880"
proof -
  have "card {xs::int list. length xs = 9 \<and> distinct xs \<and> set xs \<subseteq> {0..8}} =
        \<Prod>{card {0..8::int} - 9 + 1..card {0..8::int}}"
    by (rule card_lists_distinct_length_eq) simp_all
  also have "\<dots> = \<Prod>{1..9::nat}" by simp
  also have "\<dots> = (fact 9 :: nat)" by (simp add: fact_prod)
  also have "\<dots> = 362880" by (simp add: fact_numeral)
  finally show ?thesis .
qed

lemma finite_arrangements:
  "finite {xs::int list. length xs = 9 \<and> distinct xs \<and> set xs \<subseteq> {0..8}}"
  by (rule card_ge_0_finite) (simp add: card_arrangements)

lemma finite_valid_states: "finite {s. valid_state s}"
  using valid_states_image finite_arrangements by (blast intro: finite_surj)

lemma card_valid_states: "card {s. valid_state s} \<le> 362880"
proof -
  have "card {s. valid_state s} \<le> card ((\<lambda>xs. [take 3 xs, take 3 (drop 3 xs), drop 6 xs]) `
       {xs::int list. length xs = 9 \<and> distinct xs \<and> set xs \<subseteq> {0..8}})"
    using valid_states_image finite_arrangements by (intro card_mono) simp_all
  also have "\<dots> \<le> card {xs::int list. length xs = 9 \<and> distinct xs \<and> set xs \<subseteq> {0..8}}"
    using finite_arrangements by (rule card_image_le)
  finally show ?thesis by (simp add: card_arrangements)
qed

lemma swap_tiles_involution: "swap_tiles (swap_tiles v) = v"
  by (simp add: swap_tiles_def)

lemma swap_tiles_zero: "(swap_tiles v = 0) = (v = 0)"
  by (simp add: swap_tiles_def)

lemma relabel_involution: "relabel (relabel s) = s"
  by (simp add: relabel_def comp_def swap_tiles_involution)

lemma relabel_valid:
  assumes "valid_state s"
  shows "valid_state (relabel s)"
proof -
  from assms have l: "map length s = [3, 3, 3]"
    and m: "mset (concat s) = mset [0, 1, 2, 3, 4, 5, 6, 7, 8]"
    by (simp_all add: valid_state_def)
  have "concat (relabel s) = map swap_tiles (concat s)"
    by (simp add: relabel_def map_concat)
  then have "mset (concat (relabel s)) = image_mset swap_tiles (mset (concat s))"
    by simp
  also have "\<dots> = mset (map swap_tiles [0, 1, 2, 3, 4, 5, 6, 7, 8])"
    unfolding m by (simp only: mset_map)
  also have "\<dots> = mset [0, 1, 2, 3, 4, 5, 6, 7, 8]"
    by (simp add: swap_tiles_def)
  finally have "mset (concat (relabel s)) = mset [0, 1, 2, 3, 4, 5, 6, 7, 8]" .
  moreover have "map length (relabel s) = [3, 3, 3]"
    using l by (simp add: relabel_def comp_def)
  ultimately show ?thesis by (simp only: valid_state_def)
qed

lemma tiles_of_relabel: "tiles_of (relabel s) = map swap_tiles (tiles_of s)"
  by (simp add: tiles_of_def relabel_def map_concat filter_map comp_def swap_tiles_zero
        flip: map_concat)

lemma swap_tiles_simps:
  "swap_tiles 1 = 2" "swap_tiles 2 = 1" "x \<noteq> 1 \<Longrightarrow> x \<noteq> 2 \<Longrightarrow> swap_tiles x = x"
  by (simp_all add: swap_tiles_def)

lemma swap_tiles_less:
  "(swap_tiles a < 1) = (a < 1)"
  "(swap_tiles a < 2) = (a = 2 \<or> a < 1)"
  "x \<noteq> 1 \<Longrightarrow> x \<noteq> 2 \<Longrightarrow> (swap_tiles a < x) = (a < x)"
  by (auto simp add: swap_tiles_def)

lemma count_other:
  "x \<noteq> 1 \<Longrightarrow> x \<noteq> 2 \<Longrightarrow>
     length (filter (\<lambda>y. swap_tiles y < x) ys) = length (filter (\<lambda>y. y < x) ys)"
  by (simp add: swap_tiles_less)

lemma count_one:
  "1 \<notin> set ys \<Longrightarrow> distinct ys \<Longrightarrow>
     length (filter (\<lambda>y. swap_tiles y < 2) ys) =
       length (filter (\<lambda>y. y < 1) ys) + (if 2 \<in> set ys then 1 else 0)"
  by (induction ys) (auto simp add: swap_tiles_less)

lemma count_below_two:
  "distinct ys \<Longrightarrow>
     length (filter (\<lambda>y::int. y < 2) ys) =
       length (filter (\<lambda>y. y < 1) ys) + (if 1 \<in> set ys then 1 else 0)"
proof (induction ys)
  case Nil
  show ?case by simp
next
  case (Cons a ys)
  then have IH: "length (filter (\<lambda>y. y < 2) ys) =
       length (filter (\<lambda>y. y < 1) ys) + (if 1 \<in> set ys then 1 else 0)"
    and a: "a \<notin> set ys" by simp_all
  consider "a < 1" | "a = 1" | "2 \<le> a" by linarith
  then show ?case
  proof cases
    case 1
    then have "a < 2" "a \<noteq> 1" by simp_all
    with 1 IH show ?thesis by simp
  next
    case 2
    with a have "1 \<notin> set ys" by simp
    with 2 IH show ?thesis by simp
  next
    case 3
    then have "\<not> a < 2" "\<not> a < 1" "a \<noteq> 1" by simp_all
    with IH show ?thesis by simp
  qed
qed

lemma count_two:
  "distinct ys \<Longrightarrow>
     length (filter (\<lambda>y. swap_tiles y < 1) ys) + (if 1 \<in> set ys then 1 else 0) =
       length (filter (\<lambda>y. y < 2) ys)"
  by (simp add: swap_tiles_less(1) count_below_two)

lemma inversions_swap_tiles:
  "distinct xs \<Longrightarrow>
     even (inversions (map swap_tiles xs)) =
       (even (inversions xs) \<noteq> (1 \<in> set xs \<and> 2 \<in> set xs))"
proof (induction xs)
  case Nil
  show ?case by simp
next
  case (Cons x xs)
  then have d: "distinct xs" and x: "x \<notin> set xs" by simp_all
  note IH = Cons.IH [OF d]
  have step: "inversions (map swap_tiles (x # xs)) =
      length (filter (\<lambda>y. swap_tiles y < swap_tiles x) xs) + inversions (map swap_tiles xs)"
    by (simp add: comp_def)
  consider "x = 1" | "x = 2" | "x \<noteq> 1" "x \<noteq> 2" by blast
  then show ?case
  proof cases
    case 1
    with x have n: "1 \<notin> set xs" by simp
    show ?thesis
      unfolding step using count_one [OF n d] IH n
      by (auto simp add: 1 swap_tiles_simps)
  next
    case 2
    with x have n: "2 \<notin> set xs" by simp
    note eq = count_two [OF d, symmetric]
    show ?thesis
      unfolding step using IH n
      by (auto simp add: 2 swap_tiles_simps eq)
  next
    case 3
    show ?thesis
      unfolding step using count_other [OF 3] IH 3
      by (auto simp add: swap_tiles_simps)
  qed
qed

lemma relabel_parity:
  assumes "valid_state s"
  shows "is_solvable (relabel s) \<noteq> is_solvable s"
proof -
  from assms have m: "mset (concat s) = mset [0, 1, 2, 3, 4, 5, 6, 7, 8]"
    by (simp add: valid_state_def)
  have "distinct (concat s)" using mset_eq_imp_distinct_iff [OF m] by simp
  then have d: "distinct (tiles_of s)" by (simp add: tiles_of_def)
  have "set (concat s) = {0, 1, 2, 3, 4, 5, 6, 7, 8}" using mset_eq_setD [OF m] by simp
  then have "1 \<in> set (tiles_of s)" "2 \<in> set (tiles_of s)" by (simp_all add: tiles_of_def)
  with inversions_swap_tiles [OF d] show ?thesis
    by (simp add: is_solvable_inversions tiles_of_relabel)
qed

lemma relabel_class:
  "relabel ` {s. valid_state s \<and> is_solvable s = b} \<subseteq> {s. valid_state s \<and> is_solvable s = (\<not> b)}"
  using relabel_valid relabel_parity by auto

lemma inj_relabel: "inj_on relabel A"
  by (rule inj_on_inverseI [of _ relabel]) (rule relabel_involution)

lemma card_class_le:
  "card {s. valid_state s \<and> is_solvable s = b} \<le> card {s. valid_state s \<and> is_solvable s = (\<not> b)}"
proof -
  have "card {s. valid_state s \<and> is_solvable s = b} =
        card (relabel ` {s. valid_state s \<and> is_solvable s = b})"
    by (rule card_image [OF inj_relabel, symmetric])
  also have "\<dots> \<le> card {s. valid_state s \<and> is_solvable s = (\<not> b)}"
    by (rule card_mono [OF _ relabel_class]) (rule finite_subset [OF _ finite_valid_states], blast)
  finally show ?thesis .
qed

lemma card_parity_class: "card {s. valid_state s \<and> is_solvable s = b} \<le> 181440"
proof -
  let ?A = "{s. valid_state s \<and> is_solvable s = b}"
  let ?B = "{s. valid_state s \<and> is_solvable s = (\<not> b)}"
  have fin: "finite ?A" "finite ?B"
    by (rule finite_subset [OF _ finite_valid_states], blast)+
  have "?A \<union> ?B = {s. valid_state s}" "?A \<inter> ?B = {}" by auto
  with fin have "card {s. valid_state s} = card ?A + card ?B"
    using card_Un_disjoint [of ?A ?B] by simp
  with card_class_le [of b] card_valid_states show ?thesis by linarith
qed

lemma reachable_subset:
  assumes "valid_state s0"
  shows "reachable s0 \<subseteq> {s. valid_state s \<and> is_solvable s = is_solvable s0}"
  using reachable_valid [OF assms] by blast

lemma finite_reachable:
  assumes "valid_state s0"
  shows "finite (reachable s0)"
proof -
  have "reachable s0 \<subseteq> {s. valid_state s}"
    using reachable_subset [OF assms] by blast
  then show ?thesis using finite_valid_states by (rule finite_subset)
qed

lemma card_reachable:
  assumes "valid_state s0"
  shows "card (reachable s0) \<le> 181440"
proof -
  have "finite {s. valid_state s \<and> is_solvable s = is_solvable s0}"
    by (rule finite_subset [OF _ finite_valid_states]) blast
  from card_mono [OF this reachable_subset [OF assms]] card_parity_class [of "is_solvable s0"]
  show ?thesis by linarith
qed

subsection \<open>Grids with one blank\<close>

lemma shape_grid:
  assumes "map length s = [3, 3, 3]"
  shows "\<exists>x0 x1 x2 x3 x4 x5 x6 x7 x8. s = [[x0, x1, x2], [x3, x4, x5], [x6, x7, x8]]"
proof -
  from assms obtain r0 r1 r2 where s: "s = [r0, r1, r2]" and
    "length r0 = 3" "length r1 = 3" "length r2 = 3"
    by (auto simp add: map_eq_Cons_conv)
  then show ?thesis
    using length3 [of r0] length3 [of r1] length3 [of r2] by auto
qed

lemma valid_one_blank:
  assumes "valid_state s"
  shows "one_blank s"
proof -
  from assms have l: "map length s = [3, 3, 3]"
    and m: "mset (concat s) = mset [0, 1, 2, 3, 4, 5, 6, 7, 8]"
    by (simp_all add: valid_state_def)
  have "count_list (concat s) 0 = count (mset (concat s)) 0" by (simp add: count_mset)
  also have "\<dots> = 1" unfolding m by simp
  finally show ?thesis using l by (simp add: one_blank_def)
qed

lemma one_blank_cases [consumes 1, case_names b00 b01 b02 b10 b11 b12 b20 b21 b22]:
  assumes "one_blank s"
  obtains (b00) x1 x2 x3 x4 x5 x6 x7 x8 where
      "s = [[0, x1, x2], [x3, x4, x5], [x6, x7, x8]]"
      "x1 \<noteq> 0 \<and> x2 \<noteq> 0 \<and> x3 \<noteq> 0 \<and> x4 \<noteq> 0 \<and> x5 \<noteq> 0 \<and> x6 \<noteq> 0 \<and> x7 \<noteq> 0 \<and> x8 \<noteq> 0"
  | (b01) x0 x2 x3 x4 x5 x6 x7 x8 where
      "s = [[x0, 0, x2], [x3, x4, x5], [x6, x7, x8]]"
      "x0 \<noteq> 0 \<and> x2 \<noteq> 0 \<and> x3 \<noteq> 0 \<and> x4 \<noteq> 0 \<and> x5 \<noteq> 0 \<and> x6 \<noteq> 0 \<and> x7 \<noteq> 0 \<and> x8 \<noteq> 0"
  | (b02) x0 x1 x3 x4 x5 x6 x7 x8 where
      "s = [[x0, x1, 0], [x3, x4, x5], [x6, x7, x8]]"
      "x0 \<noteq> 0 \<and> x1 \<noteq> 0 \<and> x3 \<noteq> 0 \<and> x4 \<noteq> 0 \<and> x5 \<noteq> 0 \<and> x6 \<noteq> 0 \<and> x7 \<noteq> 0 \<and> x8 \<noteq> 0"
  | (b10) x0 x1 x2 x4 x5 x6 x7 x8 where
      "s = [[x0, x1, x2], [0, x4, x5], [x6, x7, x8]]"
      "x0 \<noteq> 0 \<and> x1 \<noteq> 0 \<and> x2 \<noteq> 0 \<and> x4 \<noteq> 0 \<and> x5 \<noteq> 0 \<and> x6 \<noteq> 0 \<and> x7 \<noteq> 0 \<and> x8 \<noteq> 0"
  | (b11) x0 x1 x2 x3 x5 x6 x7 x8 where
      "s = [[x0, x1, x2], [x3, 0, x5], [x6, x7, x8]]"
      "x0 \<noteq> 0 \<and> x1 \<noteq> 0 \<and> x2 \<noteq> 0 \<and> x3 \<noteq> 0 \<and> x5 \<noteq> 0 \<and> x6 \<noteq> 0 \<and> x7 \<noteq> 0 \<and> x8 \<noteq> 0"
  | (b12) x0 x1 x2 x3 x4 x6 x7 x8 where
      "s = [[x0, x1, x2], [x3, x4, 0], [x6, x7, x8]]"
      "x0 \<noteq> 0 \<and> x1 \<noteq> 0 \<and> x2 \<noteq> 0 \<and> x3 \<noteq> 0 \<and> x4 \<noteq> 0 \<and> x6 \<noteq> 0 \<and> x7 \<noteq> 0 \<and> x8 \<noteq> 0"
  | (b20) x0 x1 x2 x3 x4 x5 x7 x8 where
      "s = [[x0, x1, x2], [x3, x4, x5], [0, x7, x8]]"
      "x0 \<noteq> 0 \<and> x1 \<noteq> 0 \<and> x2 \<noteq> 0 \<and> x3 \<noteq> 0 \<and> x4 \<noteq> 0 \<and> x5 \<noteq> 0 \<and> x7 \<noteq> 0 \<and> x8 \<noteq> 0"
  | (b21) x0 x1 x2 x3 x4 x5 x6 x8 where
      "s = [[x0, x1, x2], [x3, x4, x5], [x6, 0, x8]]"
      "x0 \<noteq> 0 \<and> x1 \<noteq> 0 \<and> x2 \<noteq> 0 \<and> x3 \<noteq> 0 \<and> x4 \<noteq> 0 \<and> x5 \<noteq> 0 \<and> x6 \<noteq> 0 \<and> x8 \<noteq> 0"
  | (b22) x0 x1 x2 x3 x4 x5 x6 x7 where
      "s = [[x0, x1, x2], [x3, x4, x5], [x6, x7, 0]]"
      "x0 \<noteq> 0 \<and> x1 \<noteq> 0 \<and> x2 \<noteq> 0 \<and> x3 \<noteq> 0 \<and> x4 \<noteq> 0 \<and> x5 \<noteq> 0 \<and> x6 \<noteq> 0 \<and> x7 \<noteq> 0"
proof -
  from assms have l: "map length s = [3, 3, 3]" and c: "count_list (concat s) 0 = 1"
    by (simp_all add: one_blank_def)
  from shape_grid [OF l] obtain x0 x1 x2 x3 x4 x5 x6 x7 x8 where
    s: "s = [[x0, x1, x2], [x3, x4, x5], [x6, x7, x8]]"
    by (elim exE)
  from c have "count_list [x0, x1, x2, x3, x4, x5, x6, x7, x8] 0 = 1"
    unfolding s by simp
  then consider
    "x0 = 0 \<and> x1 \<noteq> 0 \<and> x2 \<noteq> 0 \<and> x3 \<noteq> 0 \<and> x4 \<noteq> 0 \<and> x5 \<noteq> 0 \<and> x6 \<noteq> 0 \<and> x7 \<noteq> 0 \<and> x8 \<noteq> 0"
    | "x1 = 0 \<and> x0 \<noteq> 0 \<and> x2 \<noteq> 0 \<and> x3 \<noteq> 0 \<and> x4 \<noteq> 0 \<and> x5 \<noteq> 0 \<and> x6 \<noteq> 0 \<and> x7 \<noteq> 0 \<and> x8 \<noteq> 0"
    | "x2 = 0 \<and> x0 \<noteq> 0 \<and> x1 \<noteq> 0 \<and> x3 \<noteq> 0 \<and> x4 \<noteq> 0 \<and> x5 \<noteq> 0 \<and> x6 \<noteq> 0 \<and> x7 \<noteq> 0 \<and> x8 \<noteq> 0"
    | "x3 = 0 \<and> x0 \<noteq> 0 \<and> x1 \<noteq> 0 \<and> x2 \<noteq> 0 \<and> x4 \<noteq> 0 \<and> x5 \<noteq> 0 \<and> x6 \<noteq> 0 \<and> x7 \<noteq> 0 \<and> x8 \<noteq> 0"
    | "x4 = 0 \<and> x0 \<noteq> 0 \<and> x1 \<noteq> 0 \<and> x2 \<noteq> 0 \<and> x3 \<noteq> 0 \<and> x5 \<noteq> 0 \<and> x6 \<noteq> 0 \<and> x7 \<noteq> 0 \<and> x8 \<noteq> 0"
    | "x5 = 0 \<and> x0 \<noteq> 0 \<and> x1 \<noteq> 0 \<and> x2 \<noteq> 0 \<and> x3 \<noteq> 0 \<and> x4 \<noteq> 0 \<and> x6 \<noteq> 0 \<and> x7 \<noteq> 0 \<and> x8 \<noteq> 0"
    | "x6 = 0 \<and> x0 \<noteq> 0 \<and> x1 \<noteq> 0 \<and> x2 \<noteq> 0 \<and> x3 \<noteq> 0 \<and> x4 \<noteq> 0 \<and> x5 \<noteq> 0 \<and> x7 \<noteq> 0 \<and> x8 \<noteq> 0"
    | "x7 = 0 \<and> x0 \<noteq> 0 \<and> x1 \<noteq> 0 \<and> x2 \<noteq> 0 \<and> x3 \<noteq> 0 \<and> x4 \<noteq> 0 \<and> x5 \<noteq> 0 \<and> x6 \<noteq> 0 \<and> x8 \<noteq> 0"
    | "x8 = 0 \<and> x0 \<noteq> 0 \<and> x1 \<noteq> 0 \<and> x2 \<noteq> 0 \<and> x3 \<noteq> 0 \<and> x4 \<noteq> 0 \<and> x5 \<noteq> 0 \<and> x6 \<noteq> 0 \<and> x7 \<noteq> 0"
    by (simp split: if_splits)
  then show thesis
  proof cases
    case 1
    show thesis by (rule b00) (use s 1 in auto)
  next
    case 2
    show thesis by (rule b01) (use s 2 in auto)
  next
    case 3
    show thesis by (rule b02) (use s 3 in auto)
  next
    case 4
    show thesis by (rule b10) (use s 4 in auto)
  next
    case 5
    show thesis by (rule b11) (use s 5 in auto)
  next
    case 6
    show thesis by (rule b12) (use s 6 in auto)
  next
    case 7
    show thesis by (rule b20) (use s 7 in auto)
  next
    case 8
    show thesis by (rule b21) (use s 8 in auto)
  next
    case 9
    show thesis by (rule b22) (use s 9 in auto)
  qed
qed

lemma one_blank_operators:
  assumes "one_blank s"
  shows "\<exists>oprs. operators s = Inr oprs"
  using assms(1)
proof (cases rule: one_blank_cases)
  case (b00 x1 x2 x3 x4 x5 x6 x7 x8)
  show ?thesis
    using b00 by (simp add: moves_00)
next
  case (b01 x0 x2 x3 x4 x5 x6 x7 x8)
  show ?thesis
    using b01 by (simp add: moves_01)
next
  case (b02 x0 x1 x3 x4 x5 x6 x7 x8)
  show ?thesis
    using b02 by (simp add: moves_02)
next
  case (b10 x0 x1 x2 x4 x5 x6 x7 x8)
  show ?thesis
    using b10 by (simp add: moves_10)
next
  case (b11 x0 x1 x2 x3 x5 x6 x7 x8)
  show ?thesis
    using b11 by (simp add: moves_11)
next
  case (b12 x0 x1 x2 x3 x4 x6 x7 x8)
  show ?thesis
    using b12 by (simp add: moves_12)
next
  case (b20 x0 x1 x2 x3 x4 x5 x7 x8)
  show ?thesis
    using b20 by (simp add: moves_20)
next
  case (b21 x0 x1 x2 x3 x4 x5 x6 x8)
  show ?thesis
    using b21 by (simp add: moves_21)
next
  case (b22 x0 x1 x2 x3 x4 x5 x6 x7)
  show ?thesis
    using b22 by (simp add: moves_22)
qed

lemma one_blank_result:
  assumes "one_blank s" and "operators s = Inr oprs" and "opr \<in> set oprs"
  shows "\<exists>s'. result s opr = Inr s' \<and> one_blank s' \<and> mset (concat s') = mset (concat s)"
  using assms(1)
proof (cases rule: one_blank_cases)
  case (b00 x1 x2 x3 x4 x5 x6 x7 x8)
  show ?thesis
    proof -
      from assms(2) b00 have "oprs = [''down'', ''right'']" by (simp add: moves_00)
      with assms(3) have "opr = ''down'' \<or> opr = ''right''" by auto
      then show ?thesis
        using b00 by (auto simp add: moves_00 one_blank_def)
    qed
next
  case (b01 x0 x2 x3 x4 x5 x6 x7 x8)
  show ?thesis
    proof -
      from assms(2) b01 have "oprs = [''down'', ''left'', ''right'']" by (simp add: moves_01)
      with assms(3) have "opr = ''down'' \<or> opr = ''left'' \<or> opr = ''right''" by auto
      then show ?thesis
        using b01 by (auto simp add: moves_01 one_blank_def)
    qed
next
  case (b02 x0 x1 x3 x4 x5 x6 x7 x8)
  show ?thesis
    proof -
      from assms(2) b02 have "oprs = [''down'', ''left'']" by (simp add: moves_02)
      with assms(3) have "opr = ''down'' \<or> opr = ''left''" by auto
      then show ?thesis
        using b02 by (auto simp add: moves_02 one_blank_def)
    qed
next
  case (b10 x0 x1 x2 x4 x5 x6 x7 x8)
  show ?thesis
    proof -
      from assms(2) b10 have "oprs = [''up'', ''down'', ''right'']" by (simp add: moves_10)
      with assms(3) have "opr = ''up'' \<or> opr = ''down'' \<or> opr = ''right''" by auto
      then show ?thesis
        using b10 by (auto simp add: moves_10 one_blank_def)
    qed
next
  case (b11 x0 x1 x2 x3 x5 x6 x7 x8)
  show ?thesis
    proof -
      from assms(2) b11 have "oprs = [''up'', ''down'', ''left'', ''right'']" by (simp add: moves_11)
      with assms(3) have "opr = ''up'' \<or> opr = ''down'' \<or> opr = ''left'' \<or> opr = ''right''" by auto
      then show ?thesis
        using b11 by (auto simp add: moves_11 one_blank_def)
    qed
next
  case (b12 x0 x1 x2 x3 x4 x6 x7 x8)
  show ?thesis
    proof -
      from assms(2) b12 have "oprs = [''up'', ''down'', ''left'']" by (simp add: moves_12)
      with assms(3) have "opr = ''up'' \<or> opr = ''down'' \<or> opr = ''left''" by auto
      then show ?thesis
        using b12 by (auto simp add: moves_12 one_blank_def)
    qed
next
  case (b20 x0 x1 x2 x3 x4 x5 x7 x8)
  show ?thesis
    proof -
      from assms(2) b20 have "oprs = [''up'', ''right'']" by (simp add: moves_20)
      with assms(3) have "opr = ''up'' \<or> opr = ''right''" by auto
      then show ?thesis
        using b20 by (auto simp add: moves_20 one_blank_def)
    qed
next
  case (b21 x0 x1 x2 x3 x4 x5 x6 x8)
  show ?thesis
    proof -
      from assms(2) b21 have "oprs = [''up'', ''left'', ''right'']" by (simp add: moves_21)
      with assms(3) have "opr = ''up'' \<or> opr = ''left'' \<or> opr = ''right''" by auto
      then show ?thesis
        using b21 by (auto simp add: moves_21 one_blank_def)
    qed
next
  case (b22 x0 x1 x2 x3 x4 x5 x6 x7)
  show ?thesis
    proof -
      from assms(2) b22 have "oprs = [''up'', ''left'']" by (simp add: moves_22)
      with assms(3) have "opr = ''up'' \<or> opr = ''left''" by auto
      then show ?thesis
        using b22 by (auto simp add: moves_22 one_blank_def)
    qed
qed

subsection \<open>The loop of the search\<close>

lemma reachable_one_blank:
  assumes "one_blank s0" and "s \<in> reachable s0"
  shows "one_blank s \<and> mset (concat s) = mset (concat s0)"
  using assms(2)
proof (induction rule: reachable.induct)
  case start
  show ?case using assms(1) by simp
next
  case (move s oprs opr s')
  then have v: "one_blank s" and p: "mset (concat s) = mset (concat s0)" by simp_all
  from one_blank_result [OF v move.hyps(2,3)] move.hyps(4) p
  show ?case by auto
qed

lemma reachable_image:
  assumes "one_blank s0"
  shows "reachable s0 \<subseteq>
     (\<lambda>xs. [take 3 xs, take 3 (drop 3 xs), drop 6 xs]) `
       {xs. set xs \<subseteq> set (concat s0) \<and> length xs = 9}"
proof
  fix s assume "s \<in> reachable s0"
  from reachable_one_blank [OF assms this]
  have l: "map length s = [3, 3, 3]" and m: "mset (concat s) = mset (concat s0)"
    by (simp_all add: one_blank_def)
  from shape_grid [OF l] obtain x0 x1 x2 x3 x4 x5 x6 x7 x8 where
    s: "s = [[x0, x1, x2], [x3, x4, x5], [x6, x7, x8]]" by (elim exE)
  let ?xs = "concat s"
  have "set ?xs \<subseteq> set (concat s0)" using mset_eq_setD [OF m] by simp
  moreover have "length ?xs = 9" unfolding s by simp
  moreover have "s = [take 3 ?xs, take 3 (drop 3 ?xs), drop 6 ?xs]" unfolding s by simp
  ultimately show "s \<in> (\<lambda>xs. [take 3 xs, take 3 (drop 3 xs), drop 6 xs]) `
       {xs. set xs \<subseteq> set (concat s0) \<and> length xs = 9}"
    by blast
qed

lemma reachable_finite:
  assumes "one_blank s0"
  shows "finite (reachable s0)"
  by (rule finite_subset [OF reachable_image [OF assms]])
    (simp add: finite_lists_length_eq)

lemma reachable_card_bound:
  assumes "one_blank s0"
  shows "card (reachable s0) \<le> 387420489"
proof -
  let ?L = "{xs. set xs \<subseteq> set (concat s0) \<and> length xs = 9}"
  from assms have "length (concat s0) = 9"
    using shape_grid [of s0] by (auto simp add: one_blank_def)
  then have c: "card (set (concat s0)) \<le> 9" using card_length [of "concat s0"] by simp
  have f: "finite ?L" by (simp add: finite_lists_length_eq)
  have "card (reachable s0) \<le> card ((\<lambda>xs. [take 3 xs, take 3 (drop 3 xs), drop 6 xs]) ` ?L)"
    by (rule card_mono [OF finite_imageI [OF f] reachable_image [OF assms]])
  also have "\<dots> \<le> card ?L" by (rule card_image_le [OF f])
  also have "\<dots> = card (set (concat s0)) ^ 9" by (simp add: card_lists_length_eq)
  also have "\<dots> \<le> 9 ^ 9" using c by (rule power_mono) simp
  finally show ?thesis by simp
qed

lemma operators_length: "operators s = Inr oprs \<Longrightarrow> length oprs \<le> 4"
  by (auto simp add: operators_def split: sum.splits option.splits)

lemma node_f_small:
  assumes "\<bar>d\<bar> < 2 ^ 53"
  shows "\<exists>fv. node_f (Node s par opr d c hc) = Inr fv"
  using float_of_int_small [OF assms]
  by (cases hc) (simp_all add: node_f_def node_g_def node_h_def)

lemma closed_reachable:
  assumes "s0 \<in> E"
    and "\<forall>s\<in>E. \<forall>oprs opr s'.
           operators s = Inr oprs \<longrightarrow> opr \<in> set oprs \<longrightarrow> result s opr = Inr s' \<longrightarrow> s' \<in> E"
  shows "reachable s0 \<subseteq> E"
proof
  fix s assume "s \<in> reachable s0"
  then show "s \<in> E"
  proof (induction rule: reachable.induct)
    case start
    show ?case by (rule assms(1))
  next
    case (move s oprs opr s')
    with assms(2) show ?case by blast
  qed
qed

lemma entry_states_simps:
  "entry_states [] = {}"
  "entry_states (heappush fr (fv, c, nd)) = insert (state nd) (entry_states fr)"
  by (auto simp add: entry_states_def heappush_def)

lemma entry_states_mono: "set fr \<subseteq> set fr' \<Longrightarrow> entry_states fr \<subseteq> entry_states fr'"
  by (auto simp add: entry_states_def)

lemma entry_states_remove1:
  "entry_states fr \<subseteq> insert (state (snd (snd m))) (entry_states (remove1 m fr))"
proof
  fix s assume "s \<in> entry_states fr"
  then obtain e where e: "e \<in> set fr" "s = state (snd (snd e))"
    by (auto simp add: entry_states_def)
  show "s \<in> insert (state (snd (snd m))) (entry_states (remove1 m fr))"
  proof (cases "e = m")
    case True
    with e show ?thesis by simp
  next
    case False
    with e have "e \<in> set (remove1 m fr)" by simp
    with e show ?thesis by (auto simp add: entry_states_def)
  qed
qed

lemma expand_inv:
  assumes ob: "one_blank s0" and nd: "state nd \<in> reachable s0"
    and o: "operators (state nd) = Inr oprs"
    and dep: "0 \<le> depth nd" "depth nd + 1 \<le> B" "B < 2 ^ 53"
  shows "set oprs' \<subseteq> set oprs \<Longrightarrow> entry_states fr \<subseteq> reachable s0 \<Longrightarrow>
    \<forall>e\<in>set fr. 0 \<le> depth (snd (snd e)) \<and> depth (snd (snd e)) \<le> B \<Longrightarrow>
    (case expand hf nd expl oprs' (fr, cnt) of
       Inl e \<Rightarrow> \<exists>s\<in>reachable s0. hf s = Inl e
     | Inr (fr', cnt') \<Rightarrow>
         entry_states fr' \<subseteq> reachable s0 \<and>
         (\<forall>e\<in>set fr'. 0 \<le> depth (snd (snd e)) \<and> depth (snd (snd e)) \<le> B) \<and>
         set fr \<subseteq> set fr' \<and>
         length fr' \<le> length fr + length oprs' \<and>
         (\<forall>opr\<in>set oprs'. \<forall>s'. result (state nd) opr = Inr s' \<longrightarrow>
            s' \<in> expl \<union> entry_states fr'))"
proof (induction oprs' arbitrary: fr cnt)
  case Nil
  then show ?case by simp
next
  case (Cons opr oprs')
  from Cons.prems(1) have m: "opr \<in> set oprs" and sub: "set oprs' \<subseteq> set oprs"
    by simp_all
  have vn: "one_blank (state nd)" using reachable_one_blank [OF ob nd] by simp
  from one_blank_result [OF vn o m] obtain child where r: "result (state nd) opr = Inr child"
    by (elim exE conjE)
  have ch: "child \<in> reachable s0" by (rule reachable.move [OF nd o m r])
  show ?case
  proof (cases "child \<in> expl")
    case True
    from Cons.IH [OF sub Cons.prems(2,3), of cnt] True r show ?thesis
      by (auto split: sum.splits)
  next
    case False
    show ?thesis
    proof (cases "hf child")
      case (Inl e)
      with r False ch show ?thesis by auto
    next
      case (Inr hc)
      let ?cn = "Node child (Some nd) (Some opr) (depth nd + 1) (path_cost nd + 1) hc"
      from dep have "\<bar>depth nd + 1\<bar> < 2 ^ 53" by simp
      from node_f_small [OF this] obtain fv where fv: "node_f ?cn = Inr fv" by blast
      let ?fr = "heappush fr (fv, cnt, ?cn)"
      have e: "expand hf nd expl (opr # oprs') (fr, cnt) = expand hf nd expl oprs' (?fr, cnt + 1)"
        using r False Inr fv by (simp add: Let_def)
      have 1: "entry_states ?fr \<subseteq> reachable s0"
        using Cons.prems(2) ch by (simp add: entry_states_simps)
      have 2: "\<forall>e\<in>set ?fr. 0 \<le> depth (snd (snd e)) \<and> depth (snd (snd e)) \<le> B"
        using Cons.prems(3) dep by (simp add: heappush_def)
      have 3: "child \<in> entry_states ?fr" by (simp add: entry_states_simps)
      have 4: "set fr \<subseteq> set ?fr" "length ?fr = length fr + 1" by (auto simp add: heappush_def)
      show ?thesis
      proof (cases "expand hf nd expl oprs' (?fr, cnt + 1)")
        case (Inl err)
        with Cons.IH [OF sub 1 2, of "cnt + 1"] e show ?thesis by simp
      next
        case (Inr pr)
        obtain fr' cnt' where pr: "pr = (fr', cnt')" by (cases pr)
        from Cons.IH [OF sub 1 2, of "cnt + 1"] Inr pr
        have a: "entry_states fr' \<subseteq> reachable s0"
          and b: "\<forall>e\<in>set fr'. 0 \<le> depth (snd (snd e)) \<and> depth (snd (snd e)) \<le> B"
          and c: "set ?fr \<subseteq> set fr'"
          and d: "length fr' \<le> length ?fr + length oprs'"
          and f: "\<forall>opr\<in>set oprs'. \<forall>s'. result (state nd) opr = Inr s' \<longrightarrow>
                    s' \<in> expl \<union> entry_states fr'"
          by simp_all
        from 3 entry_states_mono [OF c] have "child \<in> entry_states fr'" by blast
        with f r have g: "\<forall>opr'\<in>set (opr # oprs'). \<forall>s'. result (state nd) opr' = Inr s' \<longrightarrow>
                    s' \<in> expl \<union> entry_states fr'"
          by auto
        from 4 c have h: "set fr \<subseteq> set fr'" by blast
        from 4 d have i: "length fr' \<le> length fr + length (opr # oprs')" by simp
        show ?thesis unfolding e Inr pr using a b h i g by simp
      qed
    qed
  qed
qed

lemma search_invD:
  assumes "search_inv s0 st"
  shows "entry_states (frontier st) \<subseteq> reachable s0"
    and "explored st \<subseteq> reachable s0"
    and "nodes_expanded st = int (card (explored st))"
    and "goal_grid \<notin> explored st"
    and "s0 \<in> explored st \<union> entry_states (frontier st)"
    and "\<forall>s\<in>explored st. \<forall>oprs opr s'.
         operators s = Inr oprs \<longrightarrow> opr \<in> set oprs \<longrightarrow> result s opr = Inr s' \<longrightarrow>
           s' \<in> explored st \<union> entry_states (frontier st)"
    and "\<forall>e\<in>set (frontier st).
         0 \<le> depth (snd (snd e)) \<and> depth (snd (snd e)) \<le> nodes_expanded st"
    and "int (length (frontier st)) \<le> max_queue_size st"
    and "1 \<le> max_queue_size st"
    and "max_queue_size st \<le> 1 + 3 * nodes_expanded st"
  using assms by (auto simp add: search_inv_def)

lemma loop_body_step:
  assumes ob: "one_blank s0" and inv: "search_inv s0 st" and ne: "frontier st \<noteq> []"
  shows "case loop_body (Problem s0) hf st of
           Done r \<Rightarrow> search_post s0 hf r \<and> (\<forall>ne mq. r \<noteq> Inr (None, ne, mq))
         | Next st' \<Rightarrow>
             search_inv s0 st' \<and>
             (card (reachable s0 - explored st') < card (reachable s0 - explored st) \<or>
              card (reachable s0 - explored st') = card (reachable s0 - explored st) \<and>
              length (frontier st') < length (frontier st))"
proof -
  from heappop_some [OF ne] obtain m where
    pop: "heappop (frontier st) = Inr (m, remove1 m (frontier st))" and
    mem: "m \<in> set (frontier st)"
    by blast
  obtain fv c nd where m: "m = (fv, c, nd)" by (cases m)
  let ?fr = "remove1 m (frontier st)"
  note I = search_invD [OF inv]
  note fr = I(1) and ex = I(2) and cnt = I(3) and ng = I(4) and s0 = I(5) and cl = I(6)
    and dp = I(7) and q1 = I(8) and q2 = I(9) and q3 = I(10)
  from fr mem m have nd: "state nd \<in> reachable s0" by (auto simp add: entry_states_def)
  from dp mem m have dnd: "0 \<le> depth nd" "depth nd \<le> nodes_expanded st" by auto
  have fin: "finite (reachable s0)" by (rule reachable_finite [OF ob])
  have fine: "finite (explored st)" by (rule finite_subset [OF ex fin])
  have sub: "set ?fr \<subseteq> set (frontier st)" by (rule set_remove1_subset)
  have rest: "entry_states ?fr \<subseteq> reachable s0"
    using fr entry_states_mono [OF sub] by blast
  have cover: "entry_states (frontier st) \<subseteq> insert (state nd) (entry_states ?fr)"
    using entry_states_remove1 [of "frontier st" m] m by simp
  have len: "length ?fr = length (frontier st) - 1" "1 \<le> length (frontier st)"
    using mem ne by (simp_all add: length_remove1 Suc_leI)
  consider (goal) "goal_test (Problem s0) (state nd)"
    | (seen) "\<not> goal_test (Problem s0) (state nd)" "state nd \<in> explored st"
    | (new) "\<not> goal_test (Problem s0) (state nd)" "state nd \<notin> explored st"
    by blast
  then show ?thesis
  proof cases
    case goal
    then have lb: "loop_body (Problem s0) hf st =
        Done (Inr (Some nd, nodes_expanded st, max_queue_size st))"
      by (simp add: loop_body_def pop m)
    from goal have g: "state nd = goal_grid"
      by (simp add: goal_test_def Problem_def goal_grid_def)
    from ng g have "state nd \<notin> explored st" by simp
    with nd ex have "explored st \<subset> reachable s0" by blast
    from psubset_card_mono [OF fin this] cnt
    have "nodes_expanded st < int (card (reachable s0))" by simp
    with g nd q2 q3 show ?thesis unfolding lb by (simp add: search_post_def)
  next
    case seen
    then have lb: "loop_body (Problem s0) hf st = Next (st\<lparr>frontier := ?fr\<rparr>)"
      by (simp add: loop_body_def pop m)
    from cover seen(2) have c2: "entry_states (frontier st) \<subseteq> explored st \<union> entry_states ?fr"
      by blast
    have s0': "s0 \<in> explored st \<union> entry_states ?fr" using s0 c2 by blast
    have cl': "\<forall>s\<in>explored st. \<forall>oprs opr s'.
         operators s = Inr oprs \<longrightarrow> opr \<in> set oprs \<longrightarrow> result s opr = Inr s' \<longrightarrow>
           s' \<in> explored st \<union> entry_states ?fr"
    proof (intro ballI allI impI)
      fix s oprs2 opr s'
      assume "s \<in> explored st" "operators s = Inr oprs2" "opr \<in> set oprs2"
        "result s opr = Inr s'"
      with cl have "s' \<in> explored st \<union> entry_states (frontier st)" by blast
      with c2 show "s' \<in> explored st \<union> entry_states ?fr" by blast
    qed
    have dp': "\<forall>e\<in>set ?fr.
         0 \<le> depth (snd (snd e)) \<and> depth (snd (snd e)) \<le> nodes_expanded st"
      using dp sub by blast
    have q1': "int (length ?fr) \<le> max_queue_size st" using q1 len by simp
    have "search_inv s0 (st\<lparr>frontier := ?fr\<rparr>)"
      unfolding search_inv_def using rest ex cnt ng s0' cl' dp' q1' q2 q3 by simp
    moreover have "length ?fr < length (frontier st)" using len by simp
    ultimately show ?thesis unfolding lb by simp
  next
    case new
    have vn: "one_blank (state nd)" using reachable_one_blank [OF ob nd] by simp
    from one_blank_operators [OF vn] obtain oprs where o: "operators (state nd) = Inr oprs"
      by (elim exE)
    let ?expl = "insert (state nd) (explored st)"
    let ?B = "nodes_expanded st + 1"
    have "explored st \<subset> reachable s0" using ex nd new(2) by blast
    from psubset_card_mono [OF fin this] cnt reachable_card_bound [OF ob]
    have B: "?B < 2 ^ 53" by simp
    have d1: "depth nd + 1 \<le> ?B" using dnd by simp
    have d2: "\<forall>e\<in>set ?fr. 0 \<le> depth (snd (snd e)) \<and> depth (snd (snd e)) \<le> ?B"
    proof
      fix e assume "e \<in> set ?fr"
      with sub have "e \<in> set (frontier st)" by blast
      with dp have "0 \<le> depth (snd (snd e)) \<and> depth (snd (snd e)) \<le> nodes_expanded st"
        by blast
      then show "0 \<le> depth (snd (snd e)) \<and> depth (snd (snd e)) \<le> ?B" by simp
    qed
    note e = expand_inv [OF ob nd o dnd(1) d1 B subset_refl rest d2, of hf ?expl "counter st"]
    show ?thesis
    proof (cases "expand hf nd ?expl oprs (?fr, counter st)")
      case (Inl err)
      then have "loop_body (Problem s0) hf st = Done (Inl err)"
        using new by (simp add: loop_body_def pop m o Let_def)
      then show ?thesis using e Inl by (simp add: search_post_def)
    next
      case (Inr pr)
      obtain fr' cnt' where pr: "pr = (fr', cnt')" by (cases pr)
      let ?st' = "\<lparr>frontier = fr', explored = ?expl, counter = cnt',
                nodes_expanded = nodes_expanded st + 1,
                max_queue_size = max (max_queue_size st) (int (length fr'))\<rparr>"
      from Inr pr new have lb: "loop_body (Problem s0) hf st = Next ?st'"
        by (simp add: loop_body_def pop m o Let_def)
      from e Inr pr have fr': "entry_states fr' \<subseteq> reachable s0"
        and dp': "\<forall>e\<in>set fr'. 0 \<le> depth (snd (snd e)) \<and> depth (snd (snd e)) \<le> ?B"
        and mono: "set ?fr \<subseteq> set fr'"
        and len': "length fr' \<le> length ?fr + length oprs"
        and succ: "\<forall>opr\<in>set oprs. \<forall>s'. result (state nd) opr = Inr s' \<longrightarrow>
            s' \<in> ?expl \<union> entry_states fr'"
        by simp_all
      have c: "nodes_expanded st + 1 = int (card ?expl)"
        using new(2) fine cnt by simp
      have ng': "goal_grid \<notin> ?expl"
        using ng new(1) by (simp add: goal_test_def Problem_def goal_grid_def)
      have cov: "explored st \<union> entry_states (frontier st) \<subseteq> ?expl \<union> entry_states fr'"
        using cover entry_states_mono [OF mono] by blast
      have s0': "s0 \<in> ?expl \<union> entry_states fr'" using s0 cov by blast
      have cl': "\<forall>s\<in>?expl. \<forall>oprs opr s'.
         operators s = Inr oprs \<longrightarrow> opr \<in> set oprs \<longrightarrow> result s opr = Inr s' \<longrightarrow>
           s' \<in> ?expl \<union> entry_states fr'"
      proof (intro ballI allI impI)
        fix s oprs2 opr s'
        assume s: "s \<in> ?expl" and o2: "operators s = Inr oprs2" and m2: "opr \<in> set oprs2"
          and r2: "result s opr = Inr s'"
        show "s' \<in> ?expl \<union> entry_states fr'"
        proof (cases "s = state nd")
          case True
          with o o2 have "oprs2 = oprs" by simp
          with succ m2 r2 True show ?thesis by blast
        next
          case False
          with s have "s \<in> explored st" by simp
          with cl o2 m2 r2 have "s' \<in> explored st \<union> entry_states (frontier st)" by blast
          with cov show ?thesis by blast
        qed
      qed
      from operators_length [OF o] len' len
      have l4: "int (length fr') \<le> int (length (frontier st)) + 3" by simp
      have q': "int (length fr') \<le> max (max_queue_size st) (int (length fr'))"
        "1 \<le> max (max_queue_size st) (int (length fr'))"
        "max (max_queue_size st) (int (length fr')) \<le> 1 + 3 * (nodes_expanded st + 1)"
        using q1 q2 q3 l4 by simp_all
      have inv': "search_inv s0 ?st'"
        unfolding search_inv_def using fr' ex nd c ng' s0' cl' dp' q' by simp
      have "reachable s0 - ?expl = (reachable s0 - explored st) - {state nd}" by blast
      moreover have "state nd \<in> reachable s0 - explored st" using nd new(2) by simp
      ultimately have d: "card (reachable s0 - ?expl) < card (reachable s0 - explored st)"
        using card_Diff1_less [of "reachable s0 - explored st" "state nd"] fin by simp
      show ?thesis unfolding lb using inv' d by simp
    qed
  qed
qed

lemma search_loop_post:
  assumes ob: "one_blank s0"
  shows "search_inv s0 st \<longrightarrow> (\<exists>r. search_loop (Problem s0) hf st = Some r \<and> search_post s0 hf r)"
proof -
  let ?R = "inv_image (less_than <*lex*> less_than)
              (\<lambda>st::search_state. (card (reachable s0 - explored st), length (frontier st)))"
  have "wf ?R" by (intro wf_inv_image wf_lex_prod wf_less_than)
  then show ?thesis
  proof (induct st rule: wf_induct_rule)
    case (less st)
    show ?case
    proof
      assume inv: "search_inv s0 st"
      note I = search_invD [OF inv]
      show "\<exists>r. search_loop (Problem s0) hf st = Some r \<and> search_post s0 hf r"
      proof (cases "frontier st = []")
        case True
        then have e: "entry_states (frontier st) = {}" by (simp add: entry_states_def)
        from I(5) e have s0: "s0 \<in> explored st" by simp
        from I(6) e have cl: "\<forall>s\<in>explored st. \<forall>oprs opr s'.
           operators s = Inr oprs \<longrightarrow> opr \<in> set oprs \<longrightarrow> result s opr = Inr s' \<longrightarrow>
             s' \<in> explored st" by simp
        from closed_reachable [OF s0 cl] I(2) have eq: "explored st = reachable s0" by blast
        from eq I(3) I(4) I(9) I(10)
        have "search_post s0 hf (Inr (None, nodes_expanded st, max_queue_size st))"
          by (simp add: search_post_def)
        then show ?thesis
          using search_loop_empty [OF True, of "Problem s0" hf] by simp
      next
        case False
        note step = loop_body_step [OF ob inv False, of hf]
        show ?thesis
        proof (cases "loop_body (Problem s0) hf st")
          case (Done r)
          with step search_loop_done [OF False Done] show ?thesis by simp
        next
          case (Next st')
          with step have inv': "search_inv s0 st'" and "(st', st) \<in> ?R" by auto
          from less [OF this(2)] inv' search_loop_next [OF False Next]
          show ?thesis by simp
        qed
      qed
    qed
  qed
qed

lemma graph_search_post:
  assumes ob: "one_blank s0"
  shows "\<exists>r. graph_search (Problem s0) (Some hf) = Some r \<and> search_post s0 hf r"
proof (cases "hf s0")
  case (Inl e)
  then have "graph_search (Problem s0) (Some hf) = Some (Inl e)"
    by (simp add: graph_search_def Problem_def)
  moreover have "search_post s0 hf (Inl e)"
    using Inl reachable.start [of s0] by (auto simp add: search_post_def)
  ultimately show ?thesis by simp
next
  case (Inr h0)
  let ?n0 = "Node s0 None None 0 0 h0"
  from node_f_root [of s0 h0] obtain fv where fv: "node_f ?n0 = Inr fv" by blast
  let ?st = "\<lparr>frontier = [(fv, 0, ?n0)], explored = {}, counter = 1,
              nodes_expanded = 0, max_queue_size = 1\<rparr>"
  have "search_inv s0 ?st"
    by (simp add: search_inv_def entry_states_def reachable.start)
  with search_loop_post [OF ob, of ?st hf]
  obtain r where "search_loop (Problem s0) hf ?st = Some r" "search_post s0 hf r" by blast
  moreover have "graph_search (Problem s0) (Some hf) = search_loop (Problem s0) hf ?st"
    using Inr fv by (simp add: graph_search_def Problem_def Let_def)
  ultimately show ?thesis by simp
qed

lemma graph_search_None:
  "graph_search p None = graph_search p (Some uniform_cost)"
  by (simp add: graph_search_def)

lemma uniform_cost_no_error: "uniform_cost s \<noteq> Inl e"
  by (simp add: uniform_cost_def)

lemma is_solvable_goal: "is_solvable goal_grid"
  by (simp add: is_solvable_inversions tiles_of_def goal_grid_def)

lemma post_solvable:
  assumes "valid_state s0" and "goal_grid \<in> reachable s0"
  shows "is_solvable s0"
  using reachable_valid [OF assms] is_solvable_goal by simp

lemma loop_body_empty: "frontier st = [] \<Longrightarrow> loop_body p hf st = Done (Inl IndexError)"
  by (simp add: loop_body_def)

lemma passes_search_loop:
  "passes p hf n st = Next st' \<Longrightarrow> search_loop p hf st = search_loop p hf st'"
proof (induction n arbitrary: st)
  case 0
  then show ?case by simp
next
  case (Suc n)
  show ?case
  proof (cases "loop_body p hf st")
    case (Done r)
    with Suc.prems show ?thesis by simp
  next
    case (Next st1)
    then have ne: "frontier st \<noteq> []" using loop_body_empty [of st p hf] by auto
    from Suc.prems Next have "passes p hf n st1 = Next st'" by simp
    from Suc.IH [OF this] search_loop_next [OF ne Next] show ?thesis by simp
  qed
qed

lemma passes_exit:
  assumes ob: "one_blank s0"
  shows "search_inv s0 st \<longrightarrow>
    (\<exists>n st'. passes (Problem s0) hf n st = Next st' \<and> search_inv s0 st' \<and>
       (frontier st' = [] \<or> (\<exists>r. loop_body (Problem s0) hf st' = Done r)))"
proof -
  let ?R = "inv_image (less_than <*lex*> less_than)
              (\<lambda>st::search_state. (card (reachable s0 - explored st), length (frontier st)))"
  have "wf ?R" by (intro wf_inv_image wf_lex_prod wf_less_than)
  then show ?thesis
  proof (induct st rule: wf_induct_rule)
    case (less st)
    show ?case
    proof
      assume inv: "search_inv s0 st"
      let ?goal = "\<exists>n st'. passes (Problem s0) hf n st = Next st' \<and> search_inv s0 st' \<and>
         (frontier st' = [] \<or> (\<exists>r. loop_body (Problem s0) hf st' = Done r))"
      have zero: "passes (Problem s0) hf 0 st = Next st" by simp
      show ?goal
      proof (cases "frontier st = []")
        case True
        with zero inv show ?thesis by blast
      next
        case False
        note step = loop_body_step [OF ob inv False, of hf]
        show ?thesis
        proof (cases "loop_body (Problem s0) hf st")
          case (Done r)
          with zero inv show ?thesis by blast
        next
          case (Next st1)
          with step have inv': "search_inv s0 st1" and "(st1, st) \<in> ?R" by auto
          from less [OF this(2)] inv' obtain n st' where
            p: "passes (Problem s0) hf n st1 = Next st'" and i: "search_inv s0 st'" and
            e: "frontier st' = [] \<or> (\<exists>r. loop_body (Problem s0) hf st' = Done r)"
            by blast
          from p Next have "passes (Problem s0) hf (Suc n) st = Next st'" by simp
          with i e show ?thesis by blast
        qed
      qed
    qed
  qed
qed

lemma loop_body_goal:
  assumes "loop_body p hf st = Done (Inr (gn, ne, mq))"
  shows "\<exists>fv c nd fr. heappop (frontier st) = Inr ((fv, c, nd), fr) \<and> gn = Some nd \<and>
           goal_test p (state nd) \<and> ne = nodes_expanded st \<and> mq = max_queue_size st"
proof (cases "heappop (frontier st)")
  case (Inl e)
  with assms show ?thesis by (simp add: loop_body_def)
next
  case (Inr pr)
  obtain fv c nd fr where pr: "pr = ((fv, c, nd), fr)" by (cases pr) auto
  from assms Inr pr show ?thesis
    by (simp add: loop_body_def Let_def split: if_splits sum.splits prod.splits)
qed

lemma initial_inv: "search_inv s0 (initial_queue s0 h0 fv)"
  by (simp add: search_inv_def entry_states_def reachable.start initial_queue_def)

lemma graph_search_initial:
  assumes "hf s0 = Inr h0" and "node_f (Node s0 None None 0 0 h0) = Inr fv"
  shows "graph_search (Problem s0) (Some hf) =
           search_loop (Problem s0) hf (initial_queue s0 h0 fv)"
  using assms by (simp add: graph_search_def Problem_def Let_def initial_queue_def)

lemma graph_search_exit:
  assumes ob: "one_blank s0"
  shows "\<exists>r. graph_search (Problem s0) (Some hf) = Some r \<and>
     (case r of
        Inl e \<Rightarrow> \<exists>s\<in>reachable s0. hf s = Inl e
      | Inr (gn, ne, mq) \<Rightarrow>
          (\<exists>h0 fv n st.
             hf s0 = Inr h0 \<and> node_f (Node s0 None None 0 0 h0) = Inr fv \<and>
             passes (Problem s0) hf n (initial_queue s0 h0 fv) = Next st \<and>
             ne = nodes_expanded st \<and> mq = max_queue_size st \<and>
             (case gn of
                None \<Rightarrow>
                  frontier st = [] \<and> explored st = reachable s0 \<and>
                  goal_grid \<notin> reachable s0 \<and> ne = int (card (reachable s0))
              | Some nd \<Rightarrow>
                  (\<exists>fv' c fr. heappop (frontier st) = Inr ((fv', c, nd), fr)) \<and>
                  state nd = goal_grid \<and> goal_grid \<in> reachable s0)))"
proof (cases "hf s0")
  case (Inl e)
  then have "graph_search (Problem s0) (Some hf) = Some (Inl e)"
    by (simp add: graph_search_def Problem_def)
  moreover have "\<exists>s\<in>reachable s0. hf s = Inl e"
    using Inl reachable.start [of s0] by blast
  ultimately show ?thesis by simp
next
  case (Inr h0)
  let ?n0 = "Node s0 None None 0 0 h0"
  from node_f_root [of s0 h0] obtain fv where fv: "node_f ?n0 = Inr fv" by blast
  let ?st0 = "initial_queue s0 h0 fv"
  note gs = graph_search_initial [of hf s0 h0 fv, OF Inr fv]
  from passes_exit [OF ob, of ?st0 hf] initial_inv [of s0 h0 fv]
  obtain n st where p: "passes (Problem s0) hf n ?st0 = Next st" and inv: "search_inv s0 st"
    and e: "frontier st = [] \<or> (\<exists>r. loop_body (Problem s0) hf st = Done r)"
    by blast
  note I = search_invD [OF inv]
  note sl = passes_search_loop [OF p]
  show ?thesis
  proof (cases "frontier st = []")
    case True
    then have es: "entry_states (frontier st) = {}" by (simp add: entry_states_def)
    from I(5) es have s0: "s0 \<in> explored st" by simp
    from I(6) es have cl: "\<forall>s\<in>explored st. \<forall>oprs opr s'.
       operators s = Inr oprs \<longrightarrow> opr \<in> set oprs \<longrightarrow> result s opr = Inr s' \<longrightarrow>
         s' \<in> explored st" by simp
    from closed_reachable [OF s0 cl] I(2) have eq: "explored st = reachable s0" by blast
    have r: "graph_search (Problem s0) (Some hf) =
        Some (Inr (None, nodes_expanded st, max_queue_size st))"
      unfolding gs sl by (rule search_loop_empty [OF True])
    have "\<exists>h0 fv n st'.
             hf s0 = Inr h0 \<and> node_f (Node s0 None None 0 0 h0) = Inr fv \<and>
             passes (Problem s0) hf n (initial_queue s0 h0 fv) = Next st' \<and>
             nodes_expanded st = nodes_expanded st' \<and> max_queue_size st = max_queue_size st' \<and>
             frontier st' = [] \<and> explored st' = reachable s0 \<and>
             goal_grid \<notin> reachable s0 \<and> nodes_expanded st = int (card (reachable s0))"
      using Inr fv p True eq I(3) I(4)
      by (intro exI [of _ h0] exI [of _ fv] exI [of _ n] exI [of _ st]) simp
    with r show ?thesis by simp
  next
    case False
    with e obtain r where d: "loop_body (Problem s0) hf st = Done r" by blast
    have r: "graph_search (Problem s0) (Some hf) = Some r"
      unfolding gs sl by (rule search_loop_done [OF False d])
    from loop_body_step [OF ob inv False, of hf] d
    have post: "search_post s0 hf r" by simp
    show ?thesis
    proof (cases r)
      case (Inl err)
      with post r show ?thesis by (simp add: search_post_def)
    next
      case (Inr t)
      obtain gn ne mq where t: "t = (gn, ne, mq)" by (cases t)
      from loop_body_goal [OF d [unfolded Inr t]] obtain fv' c nd fr where
        hp: "heappop (frontier st) = Inr ((fv', c, nd), fr)" and gn: "gn = Some nd"
        and cnt: "ne = nodes_expanded st" "mq = max_queue_size st"
        by blast
      from post have g: "state nd = goal_grid" "goal_grid \<in> reachable s0"
        unfolding Inr t gn by (simp_all add: search_post_def)
      have "\<exists>h0 fv n st.
             hf s0 = Inr h0 \<and> node_f (Node s0 None None 0 0 h0) = Inr fv \<and>
             passes (Problem s0) hf n (initial_queue s0 h0 fv) = Next st \<and>
             ne = nodes_expanded st \<and> mq = max_queue_size st \<and>
             (\<exists>fv' c fr. heappop (frontier st) = Inr ((fv', c, nd), fr)) \<and>
             state nd = goal_grid \<and> goal_grid \<in> reachable s0"
        using \<open>hf s0 = Inr h0\<close> fv p cnt hp g
        by (intro exI [of _ h0] exI [of _ fv] exI [of _ n] exI [of _ st]) simp
      with r show ?thesis unfolding Inr t gn by simp
    qed
  qed
qed

lemma ones_uniform:
  "graph_search (Problem ones_state) None = Some (Inr (None, 9, 5))"
  by (simp add: graph_search_def ones_state_def uniform_cost_def search_loop.simps eval_defs)

lemma one_blank_ones: "one_blank ones_state"
  by (simp add: one_blank_def ones_state_def)

lemma not_solvable_swapped: "\<not> is_solvable swapped_state"
  by (simp add: is_solvable_inversions tiles_of_def swapped_state_def)

text \<open>
  C3. Every valid state is a grid with one blank, and for every grid with one blank and
  every heuristic function, or none (uniform-cost search), \<open>graph_search\<close> returns: the
  loop is left after finitely many passes. It returns one of three things. An exception:
  then the heuristic raised it on a state reachable from the initial one, and a heuristic
  was given. A node with the two counts: then some number \<open>n\<close> of passes through the
  body leads from the variables at loop entry to variables \<open>st\<close> whose
  \<^verbatim>\<open>nodes_expanded\<close> and \<^verbatim>\<open>max_queue_size\<close> are the counts returned, \<^verbatim>\<open>heappop\<close>
  returns the entry of that node from the frontier of \<open>st\<close>, the state of the node is
  the goal, the goal is reachable, and the initial state, if valid, is solvable. Or
  \<^verbatim>\<open>None\<close> with the two counts: then \<open>n\<close> passes lead to variables \<open>st\<close> with an
  empty frontier, whose \<^verbatim>\<open>nodes_expanded\<close> and \<^verbatim>\<open>max_queue_size\<close> are the counts
  returned; the explored set then holds exactly the states reachable from the initial
  state, the goal is not among them, and \<^verbatim>\<open>nodes_expanded\<close> is their number. So the
  search from an unsolvable valid state with a heuristic that does not raise ends in
  \<^verbatim>\<open>(None, nodes_expanded, max_queue_size)\<close> when the frontier is empty.
\<close>

theorem C3_search_terminates:
  "(valid_state s0 \<longrightarrow> one_blank s0) \<and>
   (one_blank s0 \<and> (hopt = Some hf \<or> hopt = None \<and> hf = uniform_cost) \<longrightarrow>
      (\<exists>r. graph_search (Problem s0) hopt = Some r \<and>
         (case r of
            Inl e \<Rightarrow> hopt = Some hf \<and> (\<exists>s\<in>reachable s0. hf s = Inl e)
          | Inr (gn, ne, mq) \<Rightarrow>
              (\<exists>h0 fv n st.
                 hf s0 = Inr h0 \<and> node_f (Node s0 None None 0 0 h0) = Inr fv \<and>
                 passes (Problem s0) hf n (initial_queue s0 h0 fv) = Next st \<and>
                 ne = nodes_expanded st \<and> mq = max_queue_size st \<and>
                 (case gn of
                    None \<Rightarrow>
                      frontier st = [] \<and> explored st = reachable s0 \<and>
                      goal_grid \<notin> reachable s0 \<and> ne = int (card (reachable s0))
                  | Some nd \<Rightarrow>
                      (\<exists>fv' c fr. heappop (frontier st) = Inr ((fv', c, nd), fr)) \<and>
                      state nd = goal_grid \<and> goal_grid \<in> reachable s0 \<and>
                      (valid_state s0 \<longrightarrow> is_solvable s0))))))"
  (is "_ \<and> (_ \<longrightarrow> ?G)")
proof (intro conjI impI)
  assume "valid_state s0"
  then show "one_blank s0" by (rule valid_one_blank)
next
  assume a: "one_blank s0 \<and> (hopt = Some hf \<or> hopt = None \<and> hf = uniform_cost)"
  then have ob: "one_blank s0" by simp
  from a have gs: "graph_search (Problem s0) hopt = graph_search (Problem s0) (Some hf)"
    by (auto simp add: graph_search_None)
  from a have ne: "\<And>s e. hf s = Inl e \<Longrightarrow> hopt = Some hf"
    by (auto simp add: uniform_cost_no_error)
  from graph_search_exit [OF ob, of hf] obtain r where
    r: "graph_search (Problem s0) (Some hf) = Some r" and
    c: "case r of
        Inl e \<Rightarrow> \<exists>s\<in>reachable s0. hf s = Inl e
      | Inr (gn, ne, mq) \<Rightarrow>
          (\<exists>h0 fv n st.
             hf s0 = Inr h0 \<and> node_f (Node s0 None None 0 0 h0) = Inr fv \<and>
             passes (Problem s0) hf n (initial_queue s0 h0 fv) = Next st \<and>
             ne = nodes_expanded st \<and> mq = max_queue_size st \<and>
             (case gn of
                None \<Rightarrow>
                  frontier st = [] \<and> explored st = reachable s0 \<and>
                  goal_grid \<notin> reachable s0 \<and> ne = int (card (reachable s0))
              | Some nd \<Rightarrow>
                  (\<exists>fv' c fr. heappop (frontier st) = Inr ((fv', c, nd), fr)) \<and>
                  state nd = goal_grid \<and> goal_grid \<in> reachable s0))"
    by blast
  have "case r of
            Inl e \<Rightarrow> hopt = Some hf \<and> (\<exists>s\<in>reachable s0. hf s = Inl e)
          | Inr (gn, ne, mq) \<Rightarrow>
              (\<exists>h0 fv n st.
                 hf s0 = Inr h0 \<and> node_f (Node s0 None None 0 0 h0) = Inr fv \<and>
                 passes (Problem s0) hf n (initial_queue s0 h0 fv) = Next st \<and>
                 ne = nodes_expanded st \<and> mq = max_queue_size st \<and>
                 (case gn of
                    None \<Rightarrow>
                      frontier st = [] \<and> explored st = reachable s0 \<and>
                      goal_grid \<notin> reachable s0 \<and> ne = int (card (reachable s0))
                  | Some nd \<Rightarrow>
                      (\<exists>fv' c fr. heappop (frontier st) = Inr ((fv', c, nd), fr)) \<and>
                      state nd = goal_grid \<and> goal_grid \<in> reachable s0 \<and>
                      (valid_state s0 \<longrightarrow> is_solvable s0)))"
  proof (cases r)
    case (Inl e)
    with c ne show ?thesis by auto
  next
    case (Inr t)
    obtain gn ne mq where t: "t = (gn, ne, mq)" by (cases t)
    show ?thesis
    proof (cases gn)
      case None
      with c show ?thesis unfolding Inr t by simp
    next
      case (Some nd)
      from c have "goal_grid \<in> reachable s0" unfolding Inr t Some by auto
      then have "valid_state s0 \<longrightarrow> is_solvable s0" using post_solvable by blast
      with c show ?thesis unfolding Inr t Some by simp
    qed
  qed
  with r gs show ?G
    by simp
qed

text \<open>
  C3 at \<open>[[0,1,1],[1,1,1],[1,1,1]]\<close>, where uniform-cost search explores the nine
  reachable grids and returns \<^verbatim>\<open>(None, 9, 5)\<close>, and at the valid unsolvable state
  \<open>[[1,2,3],[4,5,6],[8,7,0]]\<close>, where it returns \<^verbatim>\<open>None\<close> with the number of
  reachable states.
\<close>

theorem C3_search_terminates_witness:
  "one_blank ones_state \<and>
   graph_search (Problem ones_state) None = Some (Inr (None, 9, 5)) \<and>
   int (card (reachable ones_state)) = 9 \<and> goal_grid \<notin> reachable ones_state \<and>
   valid_state swapped_state \<and> one_blank swapped_state \<and> \<not> is_solvable swapped_state \<and>
   (\<exists>ne mq. graph_search (Problem swapped_state) None = Some (Inr (None, ne, mq)) \<and>
      ne = int (card (reachable swapped_state)))"
proof -
  note a = C3_search_terminates [of ones_state None uniform_cost, THEN conjunct2]
  note b = C3_search_terminates [of swapped_state None uniform_cost]
  from a one_blank_ones ones_uniform
  have 1: "int (card (reachable ones_state)) = 9 \<and> goal_grid \<notin> reachable ones_state"
    by auto
  from b valid_examples(4) have ob: "one_blank swapped_state" by simp
  from b ob obtain r where r: "graph_search (Problem swapped_state) None = Some r"
    and c: "case r of
            Inl e \<Rightarrow> (None :: (state \<Rightarrow> error + number) option) = Some uniform_cost \<and>
              (\<exists>s\<in>reachable swapped_state. uniform_cost s = Inl e)
          | Inr (gn, ne, mq) \<Rightarrow>
              (\<exists>h0 fv n st.
                 uniform_cost swapped_state = Inr h0 \<and>
                 node_f (Node swapped_state None None 0 0 h0) = Inr fv \<and>
                 passes (Problem swapped_state) uniform_cost n
                   (initial_queue swapped_state h0 fv) = Next st \<and>
                 ne = nodes_expanded st \<and> mq = max_queue_size st \<and>
                 (case gn of
                    None \<Rightarrow>
                      frontier st = [] \<and> explored st = reachable swapped_state \<and>
                      goal_grid \<notin> reachable swapped_state \<and>
                      ne = int (card (reachable swapped_state))
                  | Some nd \<Rightarrow>
                      (\<exists>fv' c fr. heappop (frontier st) = Inr ((fv', c, nd), fr)) \<and>
                      state nd = goal_grid \<and> goal_grid \<in> reachable swapped_state \<and>
                      (valid_state swapped_state \<longrightarrow> is_solvable swapped_state)))"
    by blast
  have 2: "\<exists>ne mq. graph_search (Problem swapped_state) None = Some (Inr (None, ne, mq)) \<and>
      ne = int (card (reachable swapped_state))"
  proof (cases r)
    case (Inl e)
    with c show ?thesis by simp
  next
    case (Inr t)
    obtain gn ne mq where t: "t = (gn, ne, mq)" by (cases t)
    show ?thesis
    proof (cases gn)
      case None
      with c r show ?thesis unfolding Inr t by auto
    next
      case (Some nd)
      with c valid_examples(4) not_solvable_swapped show ?thesis unfolding Inr t by auto
    qed
  qed
  from 1 2 ob one_blank_ones ones_uniform valid_examples(4) not_solvable_swapped
  show ?thesis by simp
qed

lemma graph_search_some:
  "\<exists>hf. graph_search p hopt = graph_search p (Some hf)"
  by (cases hopt) (auto simp add: graph_search_None)

lemma graph_search_expanded_bound:
  assumes "valid_state s0" and "graph_search (Problem s0) hopt = Some (Inr (gn, ne, mq))"
  shows "ne \<le> int (card (reachable s0))"
proof -
  from graph_search_some obtain hf where
    "graph_search (Problem s0) hopt = graph_search (Problem s0) (Some hf)" by blast
  with assms(2) graph_search_post [OF valid_one_blank [OF assms(1)], of hf]
  have "search_post s0 hf (Inr (gn, ne, mq))" by auto
  then show ?thesis by (cases gn) (simp_all add: search_post_def)
qed

lemma loop_body_counts_once:
  assumes "loop_body p hf st = Next st'"
  shows "(explored st' = explored st \<and> nodes_expanded st' = nodes_expanded st) \<or>
         (\<exists>s. s \<notin> explored st \<and> explored st' = insert s (explored st) \<and>
              nodes_expanded st' = nodes_expanded st + 1)"
proof (cases "heappop (frontier st)")
  case (Inl e)
  with assms show ?thesis by (simp add: loop_body_def)
next
  case (Inr pr)
  obtain fv c nd fr where pr: "pr = ((fv, c, nd), fr)" by (cases pr) auto
  show ?thesis
  proof (cases "state nd \<in> explored st")
    case True
    with assms Inr pr have "st' = st\<lparr>frontier := fr\<rparr>"
      by (simp add: loop_body_def split: if_splits)
    then show ?thesis by simp
  next
    case False
    with assms Inr pr have
      "explored st' = insert (state nd) (explored st) \<and>
       nodes_expanded st' = nodes_expanded st + 1"
      by (auto simp add: loop_body_def Let_def split: if_splits sum.splits)
    with False show ?thesis by blast
  qed
qed

text \<open>
  C6. The count of expanded nodes that \<open>graph_search\<close> returns for a valid initial
  state is at most the number of states reachable from it, and that number is at most
  181440. In a pass of the loop that goes on, either the explored set and the count are
  both unchanged (the popped state was explored already), or a state that was not in the
  explored set is added to it and the count grows by one: no state is counted twice.
\<close>

theorem C6_expanded_once_and_bounded:
  "(valid_state s0 \<and> graph_search (Problem s0) hopt = Some (Inr (gn, ne, mq)) \<longrightarrow>
      ne \<le> int (card (reachable s0)) \<and> card (reachable s0) \<le> 181440) \<and>
   (loop_body p hf st = Next st' \<longrightarrow>
      (explored st' = explored st \<and> nodes_expanded st' = nodes_expanded st) \<or>
      (\<exists>s. s \<notin> explored st \<and> explored st' = insert s (explored st) \<and>
           nodes_expanded st' = nodes_expanded st + 1))"
  using graph_search_expanded_bound [of s0 hopt gn ne mq] card_reachable [of s0]
    loop_body_counts_once [of p hf st st']
  by blast

lemma easy_first_pass:
  "loop_body (Problem easy_state) manhattan_distance
     \<lparr>frontier = [(PyInt 1, 0, Node easy_state None None 0 0 (PyInt 1))], explored = {},
      counter = 1, nodes_expanded = 0, max_queue_size = 1\<rparr> =
   Next \<lparr>frontier =
           [(PyInt 3, 1, Node [[1, 2, 3], [4, 0, 6], [7, 5, 8]]
                     (Some (Node easy_state None None 0 0 (PyInt 1))) (Some ''up'') 1 1 (PyInt 2)),
            (PyInt 3, 2, Node [[1, 2, 3], [4, 5, 6], [0, 7, 8]]
                     (Some (Node easy_state None None 0 0 (PyInt 1))) (Some ''left'') 1 1 (PyInt 2)),
            (PyInt 1, 3, Node [[1, 2, 3], [4, 5, 6], [7, 8, 0]]
                     (Some (Node easy_state None None 0 0 (PyInt 1))) (Some ''right'') 1 1 (PyInt 0))],
         explored = {easy_state}, counter = 4, nodes_expanded = 1, max_queue_size = 3\<rparr>"
  by (simp add: easy_state_def manhattan_distance_def eval_defs)

text \<open>
  C6 at \<open>[[1,2,3],[4,5,6],[7,0,8]]\<close> with the Manhattan distance, and at the first
  pass of that search.
\<close>

theorem C6_expanded_once_and_bounded_witness:
  "valid_state easy_state \<and>
   graph_search (Problem easy_state) (Some manhattan_distance) =
     Some (Inr (Some (Node goal_grid (Some (Node easy_state None None 0 0 (PyInt 1)))
                        (Some ''right'') 1 1 (PyInt 0)), 1, 3)) \<and>
   1 \<le> int (card (reachable easy_state)) \<and> card (reachable easy_state) \<le> 181440 \<and>
   loop_body (Problem easy_state) manhattan_distance
     \<lparr>frontier = [(PyInt 1, 0, Node easy_state None None 0 0 (PyInt 1))], explored = {},
      counter = 1, nodes_expanded = 0, max_queue_size = 1\<rparr> =
   Next \<lparr>frontier =
           [(PyInt 3, 1, Node [[1, 2, 3], [4, 0, 6], [7, 5, 8]]
                     (Some (Node easy_state None None 0 0 (PyInt 1))) (Some ''up'') 1 1 (PyInt 2)),
            (PyInt 3, 2, Node [[1, 2, 3], [4, 5, 6], [0, 7, 8]]
                     (Some (Node easy_state None None 0 0 (PyInt 1))) (Some ''left'') 1 1 (PyInt 2)),
            (PyInt 1, 3, Node [[1, 2, 3], [4, 5, 6], [7, 8, 0]]
                     (Some (Node easy_state None None 0 0 (PyInt 1))) (Some ''right'') 1 1 (PyInt 0))],
         explored = {easy_state}, counter = 4, nodes_expanded = 1, max_queue_size = 3\<rparr>"
  using C6_expanded_once_and_bounded
    [where ?s0.0 = easy_state and hopt = "Some manhattan_distance"
       and gn = "Some (Node goal_grid (Some (Node easy_state None None 0 0 (PyInt 1)))
                        (Some ''right'') 1 1 (PyInt 0))"
       and ne = 1 and mq = 3 and p = "Problem easy_state" and hf = manhattan_distance
       and st = "\<lparr>frontier = [(PyInt 1, 0, Node easy_state None None 0 0 (PyInt 1))],
                  explored = {}, counter = 1, nodes_expanded = 0, max_queue_size = 1\<rparr>"
       and st' = "\<lparr>frontier =
           [(PyInt 3, 1, Node [[1, 2, 3], [4, 0, 6], [7, 5, 8]]
                     (Some (Node easy_state None None 0 0 (PyInt 1))) (Some ''up'') 1 1 (PyInt 2)),
            (PyInt 3, 2, Node [[1, 2, 3], [4, 5, 6], [0, 7, 8]]
                     (Some (Node easy_state None None 0 0 (PyInt 1))) (Some ''left'') 1 1 (PyInt 2)),
            (PyInt 1, 3, Node [[1, 2, 3], [4, 5, 6], [7, 8, 0]]
                     (Some (Node easy_state None None 0 0 (PyInt 1))) (Some ''right'') 1 1 (PyInt 0))],
         explored = {easy_state}, counter = 4, nodes_expanded = 1, max_queue_size = 3\<rparr>"]
    valid_examples(2) easy_manhattan easy_first_pass
  by simp

subsection \<open>The order of the pops\<close>

lemma entry_less_total:
  "fst (snd x) \<noteq> fst (snd y) \<Longrightarrow> \<not> entry_less x y \<Longrightarrow> entry_less y x"
  by (auto simp add: entry_less_def)

lemma entry_less_asym: "entry_less x y \<Longrightarrow> \<not> entry_less y x"
  by (auto simp add: entry_less_def)

lemma distinct_counters:
  assumes "distinct (map (\<lambda>e. fst (snd e)) fr)" and "x \<in> set fr" and "y \<in> set fr"
    and "x \<noteq> y"
  shows "fst (snd x) \<noteq> fst (snd y)"
  using assms by (meson distinct_map inj_onD)

lemma heappop_strict:
  assumes d: "distinct (map (\<lambda>e. fst (snd e)) fr)" and ne: "fr \<noteq> []"
  obtains m where "heappop fr = Inr (m, remove1 m fr)" "m \<in> set fr"
    "\<forall>x\<in>set fr. x \<noteq> m \<longrightarrow> entry_less m x"
proof -
  from heappop_some [OF ne] obtain m where
    m: "heappop fr = Inr (m, remove1 m fr)" "m \<in> set fr" "\<forall>x\<in>set fr. \<not> entry_less x m"
    by blast
  have "\<forall>x\<in>set fr. x \<noteq> m \<longrightarrow> entry_less m x"
  proof (intro ballI impI)
    fix x assume x: "x \<in> set fr" "x \<noteq> m"
    from distinct_counters [OF d x(1) m(2) x(2)] m(3) x(1)
    show "entry_less m x" using entry_less_total by blast
  qed
  from that [OF m(1) m(2) this] show thesis .
qed

lemma strict_least_unique:
  assumes "m \<in> set fr" "\<forall>x\<in>set fr. x \<noteq> m \<longrightarrow> entry_less m x"
    and "m' \<in> set fr" "\<forall>x\<in>set fr. x \<noteq> m' \<longrightarrow> entry_less m' x"
  shows "m' = m"
proof (rule ccontr)
  assume "m' \<noteq> m"
  with assms have "entry_less m m'" "entry_less m' m" by auto
  then show False using entry_less_asym by blast
qed

lemma distinct_counters_mset:
  assumes "mset fr1 = mset fr2"
  shows "distinct (map (\<lambda>e. fst (snd e)) fr1) = distinct (map (\<lambda>e. fst (snd e)) fr2)"
proof -
  from assms have "mset (map (\<lambda>e. fst (snd e)) fr1) = mset (map (\<lambda>e. fst (snd e)) fr2)"
    by (metis mset_map)
  then show ?thesis by (rule mset_eq_imp_distinct_iff)
qed

lemma heappop_mset:
  assumes d: "distinct (map (\<lambda>e. fst (snd e)) fr1)" and eq: "mset fr1 = mset fr2"
    and ne: "fr1 \<noteq> []"
  shows "\<exists>m. heappop fr1 = Inr (m, remove1 m fr1) \<and> heappop fr2 = Inr (m, remove1 m fr2) \<and>
           mset (remove1 m fr1) = mset (remove1 m fr2)"
proof -
  from eq have s: "set fr1 = set fr2" by (rule mset_eq_setD)
  from eq ne have ne2: "fr2 \<noteq> []" by auto
  from d eq have d2: "distinct (map (\<lambda>e. fst (snd e)) fr2)"
    using distinct_counters_mset by blast
  from heappop_strict [OF d ne] obtain m where
    m: "heappop fr1 = Inr (m, remove1 m fr1)" "m \<in> set fr1"
      "\<forall>x\<in>set fr1. x \<noteq> m \<longrightarrow> entry_less m x" by blast
  from heappop_strict [OF d2 ne2] obtain m' where
    m': "heappop fr2 = Inr (m', remove1 m' fr2)" "m' \<in> set fr2"
      "\<forall>x\<in>set fr2. x \<noteq> m' \<longrightarrow> entry_less m' x" by blast
  from m(2,3) m'(2,3) have "m' = m" unfolding s by (rule strict_least_unique)
  with m m' eq show ?thesis by simp
qed

lemma expand_mset:
  assumes "mset fr1 = mset fr2"
  shows "map_sum id (\<lambda>(fr', cnt'). (mset fr', cnt')) (expand hf nd expl oprs (fr1, cnt)) =
         map_sum id (\<lambda>(fr', cnt'). (mset fr', cnt')) (expand hf nd expl oprs (fr2, cnt))"
  using assms
proof (induction oprs arbitrary: fr1 fr2 cnt)
  case Nil
  then show ?case by simp
next
  case (Cons opr oprs)
  show ?case
  proof (cases "result (state nd) opr")
    case (Inl e)
    then show ?thesis by simp
  next
    case (Inr child)
    note r = this
    show ?thesis
    proof (cases "child \<in> expl")
      case True
      with r Cons.IH [OF Cons.prems, of cnt] show ?thesis by simp
    next
      case False
      show ?thesis
      proof (cases "hf child")
        case (Inl e)
        with r False show ?thesis by simp
      next
        case (Inr h_cost)
        let ?c = "Node child (Some nd) (Some opr) (depth nd + 1) (path_cost nd + 1) h_cost"
        show ?thesis
        proof (cases "node_f ?c")
          case (Inl e)
          with r False \<open>hf child = Inr h_cost\<close> show ?thesis by simp
        next
          case (Inr fv)
          from Cons.prems have "mset (heappush fr1 (fv, cnt, ?c)) = mset (heappush fr2 (fv, cnt, ?c))"
            by (simp add: heappush_def)
          from Cons.IH [OF this, of "cnt + 1"] r False \<open>hf child = Inr h_cost\<close> Inr
          show ?thesis by simp
        qed
      qed
    qed
  qed
qed

lemma expand_shape:
  "expand hf nd expl oprs (fr, cnt) = Inr (fr', cnt') \<Longrightarrow>
     \<exists>new. fr' = fr @ new \<and> map (\<lambda>e. fst (snd e)) new = [cnt..cnt' - 1] \<and> cnt \<le> cnt' \<and>
       (\<forall>e\<in>set new. parent (snd (snd e)) = Some nd)"
proof (induction oprs arbitrary: fr cnt)
  case Nil
  then show ?case by simp
next
  case (Cons opr oprs)
  show ?case
  proof (cases "result (state nd) opr")
    case (Inl e)
    with Cons.prems show ?thesis by simp
  next
    case (Inr child)
    note r = this
    show ?thesis
    proof (cases "child \<in> expl")
      case True
      with r Cons.prems have "expand hf nd expl oprs (fr, cnt) = Inr (fr', cnt')" by simp
      then show ?thesis by (rule Cons.IH)
    next
      case False
      show ?thesis
      proof (cases "hf child")
        case (Inl e)
        with r False Cons.prems show ?thesis by simp
      next
        case (Inr h_cost)
        let ?c = "Node child (Some nd) (Some opr) (depth nd + 1) (path_cost nd + 1) h_cost"
        show ?thesis
        proof (cases "node_f ?c")
          case (Inl e)
          with r False \<open>hf child = Inr h_cost\<close> Cons.prems show ?thesis by simp
        next
          case (Inr fv)
          with r False \<open>hf child = Inr h_cost\<close> Cons.prems
          have "expand hf nd expl oprs (heappush fr (fv, cnt, ?c), cnt + 1) = Inr (fr', cnt')"
            by simp
          from Cons.IH [OF this] obtain new where
            n: "fr' = heappush fr (fv, cnt, ?c) @ new"
              "map (\<lambda>e. fst (snd e)) new = [cnt + 1..cnt' - 1]" "cnt + 1 \<le> cnt'"
              "\<forall>e\<in>set new. parent (snd (snd e)) = Some nd"
            by blast
          have u: "[cnt..cnt' - 1] = cnt # [cnt + 1..cnt' - 1]"
            using n(3) by (simp add: upto_rec1)
          show ?thesis
            using n u by (intro exI [of _ "(fv, cnt, ?c) # new"]) (simp add: heappush_def)
        qed
      qed
    qed
  qed
qed

lemma distinct_counters_remove1:
  "distinct (map (\<lambda>e. fst (snd e)) fr) \<Longrightarrow> distinct (map (\<lambda>e. fst (snd e)) (remove1 m fr))"
  unfolding distinct_map
  by (metis distinct_remove1 inj_on_subset set_remove1_subset)

lemma counters_append:
  assumes d: "distinct (map (\<lambda>e. fst (snd e)) fr)"
    and b: "\<forall>e\<in>set fr. fst (snd e) < cnt"
    and n: "map (\<lambda>e. fst (snd e)) new = [cnt..cnt' - 1]"
    and le: "cnt \<le> cnt'"
  shows "distinct (map (\<lambda>e. fst (snd e)) (fr @ new)) \<and>
         (\<forall>e\<in>set (fr @ new). fst (snd e) < cnt')"
proof -
  have dn: "distinct (map (\<lambda>e. fst (snd e)) new)" unfolding n by simp
  have sn: "(\<lambda>e. fst (snd e)) ` set new = {cnt..cnt' - 1}"
    using arg_cong [OF n, of set] by simp
  have bn: "\<forall>e\<in>set new. cnt \<le> fst (snd e) \<and> fst (snd e) < cnt'"
  proof
    fix e assume "e \<in> set new"
    then have "fst (snd e) \<in> (\<lambda>e. fst (snd e)) ` set new" by (rule imageI)
    with sn have "fst (snd e) \<in> {cnt..cnt' - 1}" by simp
    then show "cnt \<le> fst (snd e) \<and> fst (snd e) < cnt'" by simp
  qed
  have bo: "\<forall>e\<in>set fr. fst (snd e) < cnt'" using b le by fastforce
  have dj: "(\<lambda>e. fst (snd e)) ` set fr \<inter> (\<lambda>e. fst (snd e)) ` set new = {}"
    using b bn by fastforce
  from d dn dj bo bn show ?thesis by auto
qed

lemma loop_body_least:
  assumes ok: "counters_ok st" and ne: "frontier st \<noteq> []"
  shows "\<exists>m. heappop (frontier st) = Inr (m, remove1 m (frontier st)) \<and>
     m \<in> set (frontier st) \<and>
     (\<forall>x\<in>set (frontier st). x \<noteq> m \<longrightarrow> entry_less m x) \<and>
     (case loop_body p hf st of
        Done r \<Rightarrow>
          (case r of
             Inl e \<Rightarrow> \<not> goal_test p (state (snd (snd m))) \<and> state (snd (snd m)) \<notin> explored st
           | Inr (gn, ne, mq) \<Rightarrow> gn = Some (snd (snd m)) \<and> goal_test p (state (snd (snd m))))
      | Next st' \<Rightarrow>
          counters_ok st' \<and>
          (\<exists>new. frontier st' = remove1 m (frontier st) @ new \<and>
             map (\<lambda>e. fst (snd e)) new = [counter st..counter st' - 1] \<and>
             counter st \<le> counter st' \<and>
             (\<forall>e\<in>set new. parent (snd (snd e)) = Some (snd (snd m)))))"
proof -
  from ok have d: "distinct (map (\<lambda>e. fst (snd e)) (frontier st))"
    and b: "\<forall>e\<in>set (frontier st). fst (snd e) < counter st"
    by (simp_all add: counters_ok_def)
  from heappop_strict [OF d ne] obtain m where
    pop: "heappop (frontier st) = Inr (m, remove1 m (frontier st))" and
    mem: "m \<in> set (frontier st)" and
    least: "\<forall>x\<in>set (frontier st). x \<noteq> m \<longrightarrow> entry_less m x"
    by blast
  obtain fv c nd where m: "m = (fv, c, nd)" by (cases m)
  have ndeq: "nd = snd (snd m)" by (simp add: m)
  let ?fr = "remove1 m (frontier st)"
  have d': "distinct (map (\<lambda>e. fst (snd e)) ?fr)" by (rule distinct_counters_remove1 [OF d])
  have b': "\<forall>e\<in>set ?fr. fst (snd e) < counter st"
    using b set_remove1_subset [of m "frontier st"] by blast
  have H: "case loop_body p hf st of
        Done r \<Rightarrow>
          (case r of
             Inl e \<Rightarrow> \<not> goal_test p (state nd) \<and> state nd \<notin> explored st
           | Inr (gn, ne, mq) \<Rightarrow> gn = Some nd \<and> goal_test p (state nd))
      | Next st' \<Rightarrow>
          counters_ok st' \<and>
          (\<exists>new. frontier st' = ?fr @ new \<and>
             map (\<lambda>e. fst (snd e)) new = [counter st..counter st' - 1] \<and>
             counter st \<le> counter st' \<and>
             (\<forall>e\<in>set new. parent (snd (snd e)) = Some nd))"
  proof (cases "goal_test p (state nd)")
    case True
    then show ?thesis by (simp add: loop_body_def pop m)
  next
    case ng: False
    show ?thesis
    proof (cases "state nd \<in> explored st")
      case True
      with ng have lb: "loop_body p hf st = Next (st\<lparr>frontier := ?fr\<rparr>)"
        by (simp add: loop_body_def pop m)
      have "counters_ok (st\<lparr>frontier := ?fr\<rparr>)" using d' b' by (simp add: counters_ok_def)
      then show ?thesis unfolding lb by simp
    next
      case nx: False
      show ?thesis
      proof (cases "operators (state nd)")
        case (Inl e)
        with ng nx show ?thesis by (simp add: loop_body_def pop m Let_def)
      next
        case (Inr oprs)
        note o = this
        let ?expl = "insert (state nd) (explored st)"
        show ?thesis
        proof (cases "expand hf nd ?expl oprs (?fr, counter st)")
          case (Inl e)
          with ng nx o show ?thesis by (simp add: loop_body_def pop m Let_def)
        next
          case (Inr pr)
          obtain fr' cnt' where pr: "pr = (fr', cnt')" by (cases pr)
          let ?st' = "\<lparr>frontier = fr', explored = ?expl, counter = cnt',
                nodes_expanded = nodes_expanded st + 1,
                max_queue_size = max (max_queue_size st) (int (length fr'))\<rparr>"
          from Inr pr ng nx o have lb: "loop_body p hf st = Next ?st'"
            by (simp add: loop_body_def pop m Let_def)
          from expand_shape [OF Inr [unfolded pr]] obtain new where
            n: "fr' = ?fr @ new" "map (\<lambda>e. fst (snd e)) new = [counter st..cnt' - 1]"
              "counter st \<le> cnt'" "\<forall>e\<in>set new. parent (snd (snd e)) = Some nd"
            by blast
          from counters_append [OF d' b' n(2) n(3)] n(1)
          have "counters_ok ?st'" by (simp add: counters_ok_def)
          with n show ?thesis unfolding lb by simp
        qed
      qed
    qed
  qed
  from pop mem least H [unfolded ndeq] show ?thesis by blast
qed

lemma loop_body_counters:
  assumes "counters_ok st" and "loop_body p hf st = Next st'"
  shows "counters_ok st'"
proof -
  from assms(2) have "frontier st \<noteq> []" using loop_body_empty [of st p hf] by auto
  from loop_body_least [OF assms(1) this, of p hf] assms(2) show ?thesis by auto
qed

lemma passes_counters:
  "counters_ok st \<Longrightarrow> passes p hf n st = Next st' \<Longrightarrow> counters_ok st'"
proof (induction n arbitrary: st)
  case 0
  then show ?case by simp
next
  case (Suc n)
  show ?case
  proof (cases "loop_body p hf st")
    case (Done r)
    with Suc.prems show ?thesis by simp
  next
    case (Next st1)
    from loop_body_counters [OF Suc.prems(1) Next] Suc.prems(2) Next Suc.IH
    show ?thesis by simp
  qed
qed

lemma initial_counters: "counters_ok (initial_queue s h0 fv)"
  by (simp add: counters_ok_def initial_queue_def)

lemma same_queue_sym: "same_queue st1 st2 \<Longrightarrow> same_queue st2 st1"
  by (simp add: same_queue_def)

lemma same_queue_counters:
  assumes "same_queue st1 st2" and "counters_ok st1"
  shows "counters_ok st2"
proof -
  from assms(1) have eq: "mset (frontier st1) = mset (frontier st2)"
    and c: "counter st1 = counter st2" by (simp_all add: same_queue_def)
  from eq have s: "set (frontier st1) = set (frontier st2)" by (rule mset_eq_setD)
  from assms(2) distinct_counters_mset [OF eq] s c show ?thesis
    by (simp add: counters_ok_def)
qed

lemma loop_body_layout:
  assumes sq: "same_queue st1 st2" and ok: "counters_ok st1"
  shows "case loop_body p hf st1 of
           Done r \<Rightarrow> loop_body p hf st2 = Done r
         | Next st1' \<Rightarrow> (\<exists>st2'. loop_body p hf st2 = Next st2' \<and> same_queue st1' st2')"
proof (cases "frontier st1 = []")
  case True
  with sq have "frontier st2 = []" by (simp add: same_queue_def)
  with True show ?thesis by (simp add: loop_body_empty)
next
  case False
  from sq have eq: "mset (frontier st1) = mset (frontier st2)"
    and ex: "explored st2 = explored st1" and c: "counter st2 = counter st1"
    and n: "nodes_expanded st2 = nodes_expanded st1"
    and q: "max_queue_size st2 = max_queue_size st1"
    by (simp_all add: same_queue_def)
  from ok have d: "distinct (map (\<lambda>e. fst (snd e)) (frontier st1))"
    by (simp add: counters_ok_def)
  from heappop_mset [OF d eq False] obtain m where
    p1: "heappop (frontier st1) = Inr (m, remove1 m (frontier st1))" and
    p2: "heappop (frontier st2) = Inr (m, remove1 m (frontier st2))" and
    r: "mset (remove1 m (frontier st1)) = mset (remove1 m (frontier st2))"
    by blast
  obtain fv cm nd where m: "m = (fv, cm, nd)" by (cases m)
  let ?f1 = "remove1 m (frontier st1)" and ?f2 = "remove1 m (frontier st2)"
  show ?thesis
  proof (cases "goal_test p (state nd)")
    case True
    then show ?thesis by (simp add: loop_body_def p1 p2 m ex c n q)
  next
    case ng: False
    show ?thesis
    proof (cases "state nd \<in> explored st1")
      case True
      with ng r show ?thesis
        by (simp add: loop_body_def p1 p2 m ex c n q same_queue_def)
    next
      case nx: False
      show ?thesis
      proof (cases "operators (state nd)")
        case (Inl e)
        with ng nx show ?thesis by (simp add: loop_body_def p1 p2 m ex Let_def)
      next
        case (Inr oprs)
        note o = this
        let ?expl = "insert (state nd) (explored st1)"
        note em = expand_mset [OF r, of hf nd ?expl oprs "counter st1"]
        show ?thesis
        proof (cases "expand hf nd ?expl oprs (?f1, counter st1)")
          case (Inl e)
          with em have "expand hf nd ?expl oprs (?f2, counter st1) = Inl e"
            by (cases "expand hf nd ?expl oprs (?f2, counter st1)") simp_all
          with Inl ng nx o show ?thesis by (simp add: loop_body_def p1 p2 m ex c Let_def)
        next
          case (Inr pr)
          obtain fr1' cnt' where pr: "pr = (fr1', cnt')" by (cases pr)
          from em Inr pr obtain fr2' where
            e2: "expand hf nd ?expl oprs (?f2, counter st1) = Inr (fr2', cnt')" and
            ms: "mset fr1' = mset fr2'"
            by (cases "expand hf nd ?expl oprs (?f2, counter st1)") auto
          from ms have "length fr1' = length fr2'" by (rule mset_eq_length)
          with Inr pr e2 ms ng nx o show ?thesis
            by (simp add: loop_body_def p1 p2 m ex c n q Let_def same_queue_def)
        qed
      qed
    qed
  qed
qed

lemma search_loop_layout_some:
  assumes "search_loop p hf st1 = Some r"
  shows "\<forall>st2. same_queue st1 st2 \<longrightarrow> counters_ok st1 \<longrightarrow> search_loop p hf st2 = Some r"
proof (rule search_loop.raw_induct
    [where P = "\<lambda>p hf st1 r. \<forall>st2. same_queue st1 st2 \<longrightarrow> counters_ok st1 \<longrightarrow>
                  search_loop p hf st2 = Some r", OF _ assms], intro allI impI)
  fix sl p hf st1 r st2
  assume IH: "\<And>p hf st y. sl p hf st = Some y \<Longrightarrow>
      \<forall>st2. same_queue st st2 \<longrightarrow> counters_ok st \<longrightarrow> search_loop p hf st2 = Some y"
    and eq: "(if frontier st1 = []
        then Some (Inr (None, nodes_expanded st1, max_queue_size st1))
        else case loop_body p hf st1 of Done r \<Rightarrow> Some r | Next st' \<Rightarrow> sl p hf st') = Some r"
    and sq: "same_queue st1 st2" and ok: "counters_ok st1"
  show "search_loop p hf st2 = Some r"
  proof (cases "frontier st1 = []")
    case True
    with sq have e2: "frontier st2 = []" by (simp add: same_queue_def)
    from eq True have "r = Inr (None, nodes_expanded st1, max_queue_size st1)" by simp
    with sq search_loop_empty [OF e2, of p hf] show ?thesis by (simp add: same_queue_def)
  next
    case False
    with sq have ne2: "frontier st2 \<noteq> []" by (auto simp add: same_queue_def)
    note l = loop_body_layout [OF sq ok, of p hf]
    show ?thesis
    proof (cases "loop_body p hf st1")
      case (Done r')
      with eq False have "r' = r" by simp
      with l Done have "loop_body p hf st2 = Done r" by simp
      from search_loop_done [OF ne2 this] show ?thesis .
    next
      case (Next st1')
      with l obtain st2' where n2: "loop_body p hf st2 = Next st2'" and
        sq': "same_queue st1' st2'" by auto
      from eq False Next have "sl p hf st1' = Some r" by simp
      from IH [OF this] sq' loop_body_counters [OF ok Next]
      have "search_loop p hf st2' = Some r" by blast
      with search_loop_next [OF ne2 n2] show ?thesis by simp
    qed
  qed
qed

lemma search_loop_layout:
  assumes "same_queue st1 st2" and "counters_ok st1"
  shows "search_loop p hf st1 = search_loop p hf st2"
proof (cases "search_loop p hf st1")
  case (Some r)
  with search_loop_layout_some [OF Some] assms show ?thesis by simp
next
  case None
  show ?thesis
  proof (cases "search_loop p hf st2")
    case n2: None
    with None show ?thesis by simp
  next
    case (Some r)
    from search_loop_layout_some [OF Some] same_queue_sym [OF assms(1)]
      same_queue_counters [OF assms] None
    show ?thesis by simp
  qed
qed

lemma graph_search_passes:
  assumes "hf s0 = Inr h0" and "node_f (Node s0 None None 0 0 h0) = Inr fv"
    and "passes (Problem s0) hf n (initial_queue s0 h0 fv) = Next st"
    and "same_queue st st2"
  shows "counters_ok st \<and> graph_search (Problem s0) (Some hf) = search_loop (Problem s0) hf st2"
proof -
  from passes_counters [OF initial_counters assms(3)] have ok: "counters_ok st" .
  from graph_search_initial [of hf s0 h0 fv, OF assms(1,2)] passes_search_loop [OF assms(3)]
    search_loop_layout [OF assms(4) ok, of "Problem s0" hf]
  show ?thesis using ok by simp
qed

text \<open>
  C5. A heuristic is a function of the state here, and \<open>graph_search\<close> a function of
  the problem and the heuristic, so two calls with the same arguments have the same value;
  what remains to show is that nothing the model leaves out, the place of an entry in the
  heap array, has a say, and how ties are settled. First, every queue \<open>st\<close> that the
  search reaches, by \<open>n\<close> passes from the variables at loop entry, has its counters in
  order, and \<open>graph_search\<close> returns what the loop returns from any queue \<open>st2\<close>
  that is \<open>st\<close> up to the layout of the heap. Second, in a pass from a queue with its
  counters in order, \<^verbatim>\<open>heappop\<close> returns the one entry \<open>m\<close> that is below every
  other entry of the frontier: its \<^verbatim>\<open>f\<close> is less, or the same with a lesser counter,
  so that among entries of equal \<^verbatim>\<open>f\<close> the one pushed first is popped. The pass
  handles the node of \<open>m\<close>: a node it returns is that node; an exception comes from
  expanding that node; and when the loop goes on, the new frontier is the old one without
  \<open>m\<close>, followed by the entries pushed in this pass, which are children of that node
  and carry the counters from the old value of the counter variable up to the new one, in
  the order of the pushes, and the counters are in order again. Third, two queues that are
  the same up to the layout, the first with its counters in order, make the same pass up
  to the layout, and the loop returns the same from both: the same goal node, hence the
  same path, and the same two counts.
\<close>

theorem C5_search_deterministic:
  "(hf s0 = Inr h0 \<and> node_f (Node s0 None None 0 0 h0) = Inr fv \<and>
    passes (Problem s0) hf n (initial_queue s0 h0 fv) = Next st \<and> same_queue st st2 \<longrightarrow>
      counters_ok st \<and>
      graph_search (Problem s0) (Some hf) = search_loop (Problem s0) hf st2) \<and>
   (counters_ok st \<and> frontier st \<noteq> [] \<longrightarrow>
      (\<exists>m. heappop (frontier st) = Inr (m, remove1 m (frontier st)) \<and>
         m \<in> set (frontier st) \<and>
         (\<forall>x\<in>set (frontier st). x \<noteq> m \<longrightarrow>
            num_val (fst m) < num_val (fst x) \<or>
            num_val (fst m) = num_val (fst x) \<and> fst (snd m) < fst (snd x)) \<and>
         (case loop_body p hf st of
            Done r \<Rightarrow>
              (case r of
                 Inl e \<Rightarrow>
                   \<not> goal_test p (state (snd (snd m))) \<and> state (snd (snd m)) \<notin> explored st
               | Inr (gn, ne, mq) \<Rightarrow>
                   gn = Some (snd (snd m)) \<and> goal_test p (state (snd (snd m))))
          | Next st' \<Rightarrow>
              counters_ok st' \<and>
              (\<exists>new. frontier st' = remove1 m (frontier st) @ new \<and>
                 map (\<lambda>e. fst (snd e)) new = [counter st..counter st' - 1] \<and>
                 counter st \<le> counter st' \<and>
                 (\<forall>e\<in>set new. parent (snd (snd e)) = Some (snd (snd m))))))) \<and>
   (counters_ok st1 \<and> same_queue st1 st2 \<longrightarrow>
      search_loop p hf st1 = search_loop p hf st2 \<and>
      (case loop_body p hf st1 of
         Done r \<Rightarrow> loop_body p hf st2 = Done r
       | Next st1' \<Rightarrow> (\<exists>st2'. loop_body p hf st2 = Next st2' \<and> same_queue st1' st2')))"
  using graph_search_passes [of hf s0 h0 fv n st st2]
    loop_body_least [of st p hf, unfolded entry_less_def]
    search_loop_layout [of st1 st2 p hf] loop_body_layout [of st1 st2 p hf]
  by blast

lemma uniform_first_pass:
  "passes (Problem easy_state) uniform_cost 1 (initial_queue easy_state (PyInt 0) (PyInt 0)) =
     Next tied_queue"
  by (simp add: tied_queue_def initial_queue_def easy_state_def uniform_cost_def eval_defs)

lemma tied_same_queue: "same_queue tied_queue tied_queue_permuted"
  by (simp add: same_queue_def tied_queue_permuted_def)

lemma uniform_root:
  "uniform_cost easy_state = Inr (PyInt 0)"
  "node_f (Node easy_state None None 0 0 (PyInt 0)) = Inr (PyInt 0)"
  by (simp_all add: uniform_cost_def node_f_def node_g_def node_h_def)

lemma tied_queue_pop:
  "frontier tied_queue \<noteq> []"
  "frontier tied_queue_permuted \<noteq> frontier tied_queue"
  "heappop (frontier tied_queue_permuted) =
     Inr ((PyInt 1, 1, Node [[1, 2, 3], [4, 0, 6], [7, 5, 8]]
                        (Some (Node easy_state None None 0 0 (PyInt 0))) (Some ''up'') 1 1 (PyInt 0)),
          [(PyInt 1, 3, Node [[1, 2, 3], [4, 5, 6], [7, 8, 0]]
                        (Some (Node easy_state None None 0 0 (PyInt 0))) (Some ''right'') 1 1 (PyInt 0)),
           (PyInt 1, 2, Node [[1, 2, 3], [4, 5, 6], [0, 7, 8]]
                        (Some (Node easy_state None None 0 0 (PyInt 0))) (Some ''left'') 1 1 (PyInt 0))])"
  by (simp_all add: tied_queue_def tied_queue_permuted_def entry_less_def)

text \<open>
  C5 at the queue after the first pass of uniform-cost search on
  \<open>[[1,2,3],[4,5,6],[7,0,8]]\<close>, whose three entries have \<^verbatim>\<open>f = 1\<close>, and at that
  queue with the frontier reversed: the entry with counter 1 is popped, and the loop
  returns the goal node with the counts 3 and 5 from both.
\<close>

theorem C5_search_deterministic_witness:
  "uniform_cost easy_state = Inr (PyInt 0) \<and>
   node_f (Node easy_state None None 0 0 (PyInt 0)) = Inr (PyInt 0) \<and>
   passes (Problem easy_state) uniform_cost 1 (initial_queue easy_state (PyInt 0) (PyInt 0)) =
     Next tied_queue \<and>
   same_queue tied_queue tied_queue_permuted \<and>
   frontier tied_queue_permuted \<noteq> frontier tied_queue \<and>
   counters_ok tied_queue \<and> frontier tied_queue \<noteq> [] \<and>
   search_loop (Problem easy_state) uniform_cost tied_queue_permuted =
     Some (Inr (Some (Node goal_grid (Some (Node easy_state None None 0 0 (PyInt 0)))
                        (Some ''right'') 1 1 (PyInt 0)), 3, 5)) \<and>
   search_loop (Problem easy_state) uniform_cost tied_queue =
     search_loop (Problem easy_state) uniform_cost tied_queue_permuted \<and>
   (\<exists>m. heappop (frontier tied_queue) = Inr (m, remove1 m (frontier tied_queue)) \<and>
      fst (snd m) = 1 \<and> operator (snd (snd m)) = Some ''up'') \<and>
   heappop (frontier tied_queue_permuted) =
     Inr ((PyInt 1, 1, Node [[1, 2, 3], [4, 0, 6], [7, 5, 8]]
                        (Some (Node easy_state None None 0 0 (PyInt 0))) (Some ''up'') 1 1 (PyInt 0)),
          [(PyInt 1, 3, Node [[1, 2, 3], [4, 5, 6], [7, 8, 0]]
                        (Some (Node easy_state None None 0 0 (PyInt 0))) (Some ''right'') 1 1 (PyInt 0)),
           (PyInt 1, 2, Node [[1, 2, 3], [4, 5, 6], [0, 7, 8]]
                        (Some (Node easy_state None None 0 0 (PyInt 0))) (Some ''left'') 1 1 (PyInt 0))])"
proof -
  note T = C5_search_deterministic
    [where hf = uniform_cost and ?s0.0 = easy_state and ?h0.0 = "PyInt 0" and fv = "PyInt 0"
       and n = 1 and st = tied_queue and ?st2.0 = tied_queue_permuted
       and p = "Problem easy_state" and ?st1.0 = tied_queue]
  from T [THEN conjunct1] uniform_root uniform_first_pass tied_same_queue easy_uniform
  have a: "counters_ok tied_queue"
    "search_loop (Problem easy_state) uniform_cost tied_queue_permuted =
     Some (Inr (Some (Node goal_grid (Some (Node easy_state None None 0 0 (PyInt 0)))
                        (Some ''right'') 1 1 (PyInt 0)), 3, 5))"
    by simp_all
  from T [THEN conjunct2, THEN conjunct2] a(1) tied_same_queue
  have b: "search_loop (Problem easy_state) uniform_cost tied_queue =
     search_loop (Problem easy_state) uniform_cost tied_queue_permuted"
    by simp
  from T [THEN conjunct2, THEN conjunct1] a(1) tied_queue_pop(1)
  obtain m where m: "heappop (frontier tied_queue) = Inr (m, remove1 m (frontier tied_queue))"
    "m \<in> set (frontier tied_queue)"
    "\<forall>x\<in>set (frontier tied_queue). x \<noteq> m \<longrightarrow>
            num_val (fst m) < num_val (fst x) \<or>
            num_val (fst m) = num_val (fst x) \<and> fst (snd m) < fst (snd x)"
    by blast
  from m(2,3) have "fst (snd m) = 1 \<and> operator (snd (snd m)) = Some ''up''"
    by (auto simp add: tied_queue_def)
  with m(1)
  have c: "\<exists>m. heappop (frontier tied_queue) = Inr (m, remove1 m (frontier tied_queue)) \<and>
      fst (snd m) = 1 \<and> operator (snd (snd m)) = Some ''up''"
    by blast
  from a b c uniform_root uniform_first_pass tied_same_queue tied_queue_pop
  show ?thesis by simp
qed

end
